theory Spec2Isabelle
  imports Main
begin

section \<open>Strings, identifiers and time\<close>

text \<open>
  Strings are lists of characters, each character read as one code unit in the range
  U+0000 .. U+00FF, so \<open>length\<close> is the JavaScript \<open>.length\<close> on that range.
  Object ids are natural numbers handed out by a counter of the database state, and
  a date is a number of milliseconds.
\<close>

type_synonym objectId = nat
type_synonym date = nat

text \<open>
  The white space that \<open>String.prototype.trim\<close> strips and that \<open>\s\<close> matches, on the
  modelled range: TAB, LF, VT, FF, CR, SPACE and NBSP.
\<close>

definition isWhiteSpace :: "char \<Rightarrow> bool" where
  "isWhiteSpace c =
     (c = CHR 0x09 \<or> c = CHR 0x0A \<or> c = CHR 0x0B \<or> c = CHR 0x0C \<or> c = CHR 0x0D
      \<or> c = CHR 0x20 \<or> c = CHR 0xA0)"

definition trim :: "string \<Rightarrow> string" where
  "trim s = rev (dropWhile isWhiteSpace (rev (dropWhile isWhiteSpace s)))"

definition isDigit :: "char \<Rightarrow> bool" where
  "isDigit c = (c \<in> set ''0123456789'')"

text \<open>The character class \<open>[\d\s()-]\<close> of the phone pattern.\<close>

definition phoneChar :: "char \<Rightarrow> bool" where
  "phoneChar c = (isDigit c \<or> isWhiteSpace c \<or> c = CHR ''('' \<or> c = CHR '')'' \<or> c = CHR ''-'')"

text \<open>
  The pattern \<open>/^[+]?[\d\s()-]+$/\<close>: an optional plus sign, then one or more characters
  of the class, up to the end of the string. A string that starts with \<open>+\<close> can only
  match with the plus sign taken by \<open>[+]?\<close>, since \<open>+\<close> is not in the class.
\<close>

fun phonePattern :: "string \<Rightarrow> bool" where
  "phonePattern [] = False"
| "phonePattern (c # cs) =
     (if c = CHR ''+'' then cs \<noteq> [] \<and> list_all phoneChar cs
      else list_all phoneChar (c # cs))"

section \<open>The List model (models/list.js)\<close>

text \<open>A validated row, as \<open>uploadAndDistribute\<close> pushes it on \<open>validatedData\<close>.\<close>

record contact =
  c_firstName :: string
  c_phone :: string
  c_notes :: string

text \<open>\<open>listItemSchema\<close>: a sub-document with its own \<open>_id\<close>.\<close>

record listItem =
  item_id :: objectId
  item_firstName :: string
  item_phone :: string
  item_notes :: string
  status :: string
  contactedAt :: "date option"
  completedAt :: "date option"

text \<open>\<open>listSchema\<close>, with the \<open>createdAt\<close> that \<open>timestamps: true\<close> adds.\<close>

record listDoc =
  list_id :: objectId
  uploadId :: string
  fileName :: string
  originalFileName :: string
  agentId :: objectId
  items :: "listItem list"
  totalItems :: int
  completedItems :: int
  pendingItems :: int
  uploadedBy :: objectId
  distributedAt :: date
  lastUpdated :: date
  createdAt :: date

text \<open>The Agent model (\<open>agentSchema\<close>), with the fields the list code reads or writes.\<close>

record agent =
  agent_id :: objectId
  agent_name :: string
  agent_email :: string
  isActive :: bool
  assignedListsCount :: int
  totalItemsAssigned :: int
  agent_createdAt :: date

text \<open>The two collections and the source of fresh object ids.\<close>

record db =
  lists :: "listDoc list"
  agents :: "agent list"
  nextId :: nat

datatype rowReason = FirstNameRequired | PhoneRequired | InvalidPhoneFormat

datatype error =
    MissingColumns "string list"
  | DataValidationFailed "(nat \<times> rowReason) list"
  | NoValidData
  | NoActiveAgents
  | ValidationError string
  | ItemNotFound
  | ListNotFound
  | InvalidStatus
  | IdRequired

subsection \<open>Schema validation\<close>

text \<open>
  The validators of \<open>listItemSchema\<close>, in the order of its paths: \<open>required\<close> rejects an
  empty string, \<open>maxlength\<close> and \<open>match\<close> as declared, \<open>enum\<close> for the status (with the
  default message of the library). The result is the message of the first validator
  that fails; the error that Mongoose raises names every failing path with its message.
  The other paths of \<open>listSchema\<close> are required ones that the controller always
  supplies (the generated upload id, the names of the stored file, the agent and the
  user); their validators are not modelled.
\<close>

definition statusEnum :: "string list" where
  "statusEnum = [''pending'', ''contacted'', ''completed'', ''failed'']"

definition validateItem :: "listItem \<Rightarrow> string option" where
  "validateItem it =
     (if item_firstName it = [] then Some ''First name is required''
      else if length (item_firstName it) > 100 then Some ''First name cannot exceed 100 characters''
      else if item_phone it = [] then Some ''Phone number is required''
      else if \<not> phonePattern (item_phone it) then Some ''Please enter a valid phone number''
      else if length (item_notes it) > 500 then Some ''Notes cannot exceed 500 characters''
      else if status it \<notin> set statusEnum
        then Some (''`'' @ status it @ ''` is not a valid enum value for path `status`.'')
      else None)"

fun validateItems :: "listItem list \<Rightarrow> string option" where
  "validateItems [] = None"
| "validateItems (it # its) =
     (case validateItem it of Some m \<Rightarrow> Some m | None \<Rightarrow> validateItems its)"

subsection \<open>The pre-save hook and save\<close>

text \<open>\<open>listSchema.pre("save")\<close>: the three counters are recomputed from the item array.\<close>

definition preSave :: "date \<Rightarrow> listDoc \<Rightarrow> listDoc" where
  "preSave now l =
     l\<lparr> totalItems := int (length (items l)),
        completedItems := int (length (filter (\<lambda>item. status item = ''completed'') (items l))),
        pendingItems := int (length (filter (\<lambda>item. status item = ''pending'') (items l))),
        lastUpdated := now \<rparr>"

text \<open>
  Writing a document into the collection: a document with the same \<open>_id\<close> is
  replaced, a new one is appended.
\<close>

fun upsert :: "listDoc \<Rightarrow> listDoc list \<Rightarrow> listDoc list" where
  "upsert l [] = [l]"
| "upsert l (x # xs) = (if list_id x = list_id l then l # xs else x # upsert l xs)"

text \<open>
  \<open>document.save()\<close>: validation runs first and rejects with a \<open>ValidationError\<close>,
  leaving the collection as it was; then the pre-save hook, then the write. Validation
  is modelled on the whole document (Mongoose validates the modified paths; a stored
  document has passed validation of every path when it was created).

  The write is modelled for the two ways the code saves a List: a new document, which
  is added, and a document that was just loaded and so is the stored one; there the
  stored document becomes the saved one, whether all paths are sent or only the
  modified ones. Saving a copy that differs from the stored document, or whose stored
  document is gone, arises only when requests overlap; the model puts the whole copy
  there, Mongoose would send the modified paths (or fail), and no property of the
  stored collection is stated for that case.
\<close>

definition save :: "date \<Rightarrow> listDoc \<Rightarrow> db \<Rightarrow> (error + listDoc) \<times> db" where
  "save now l d =
     (case validateItems (items l) of
        Some m \<Rightarrow> (Inl (ValidationError m), d)
      | None \<Rightarrow>
          (let l' = preSave now l
           in (Inr l', d\<lparr> lists := upsert l' (lists d) \<rparr>)))"

subsection \<open>The Agent model's \<open>incrementAssignedCount\<close>\<close>

text \<open>
  \<open>agent.save()\<close> writes the two counters of the in-memory document to the stored
  agent with the same \<open>_id\<close>.
\<close>

definition saveAgent :: "agent \<Rightarrow> db \<Rightarrow> db" where
  "saveAgent a d =
     d\<lparr> agents := map (\<lambda>x. if agent_id x = agent_id a
                              then x\<lparr> assignedListsCount := assignedListsCount a,
                                     totalItemsAssigned := totalItemsAssigned a \<rparr>
                              else x) (agents d) \<rparr>"

definition incrementAssignedCount :: "agent \<Rightarrow> int \<Rightarrow> db \<Rightarrow> db" where
  "incrementAssignedCount a itemsCount d =
     saveAgent (a\<lparr> assignedListsCount := assignedListsCount a + 1,
                   totalItemsAssigned := totalItemsAssigned a + itemsCount \<rparr>) d"

subsection \<open>\<open>distributeItems\<close>\<close>

record uploadData =
  ud_uploadId :: string
  ud_fileName :: string
  ud_originalFileName :: string
  ud_uploadedBy :: objectId

text \<open>\<open>Array.prototype.slice(a, b)\<close> for \<open>0 \<le> a\<close>, \<open>0 \<le> b\<close>: both ends are clamped.\<close>

definition slice :: "'a list \<Rightarrow> nat \<Rightarrow> nat \<Rightarrow> 'a list" where
  "slice xs a b = take (b - a) (drop a xs)"

text \<open>
  Casting one plain object to a \<open>listItemSchema\<close> sub-document: the \<open>trim\<close> setters of
  the three string paths, the defaults of \<open>status\<close>, and a fresh \<open>_id\<close>.
\<close>

definition castItem :: "objectId \<Rightarrow> contact \<Rightarrow> listItem" where
  "castItem i c =
     \<lparr> item_id = i, item_firstName = trim (c_firstName c), item_phone = trim (c_phone c),
       item_notes = trim (c_notes c), status = ''pending'', contactedAt = None,
       completedAt = None \<rparr>"

fun castItems :: "objectId \<Rightarrow> contact list \<Rightarrow> listItem list" where
  "castItems i [] = []"
| "castItems i (c # cs) = castItem i c # castItems (Suc i) cs"

text \<open>
  \<open>new this(listData)\<close>: the document takes the next object id, its items the ids
  after it; the counters start at their default 0 and the dates at \<open>Date.now\<close>.
\<close>

definition newList :: "date \<Rightarrow> uploadData \<Rightarrow> objectId \<Rightarrow> contact list \<Rightarrow> db \<Rightarrow> listDoc \<times> db" where
  "newList now ud aid agentItems d =
     (\<lparr> list_id = nextId d, uploadId = ud_uploadId ud, fileName = ud_fileName ud,
        originalFileName = ud_originalFileName ud, agentId = aid,
        items = castItems (Suc (nextId d)) agentItems,
        totalItems = 0, completedItems = 0, pendingItems = 0,
        uploadedBy = ud_uploadedBy ud, distributedAt = now, lastUpdated = now,
        createdAt = now \<rparr>,
      d\<lparr> nextId := nextId d + 1 + length agentItems \<rparr>)"

text \<open>
  The loop of \<open>distributeItems\<close>, with its variables \<open>i\<close>, \<open>currentIndex\<close> and
  \<open>distributions\<close>. A rejected \<open>list.save()\<close> leaves the loop with the error; what
  was written before stays written. The agents are documents as a query returns them,
  one document of its own in every slot of the array: a round reads the document of
  slot \<open>i\<close> and saves it with its two counters raised.
\<close>

function distributeLoop ::
  "date \<Rightarrow> contact list \<Rightarrow> agent list \<Rightarrow> uploadData \<Rightarrow> nat \<Rightarrow> nat \<Rightarrow>
   nat \<Rightarrow> nat \<Rightarrow> listDoc list \<Rightarrow> db \<Rightarrow> (error + listDoc list) \<times> db" where
  "distributeLoop now its ags ud itemsPerAgent remainder i currentIndex distributions d =
     (if i < length ags then
        (let agent = ags ! i;
             itemCount = itemsPerAgent + (if i < remainder then 1 else 0);
             agentItems = slice its currentIndex (currentIndex + itemCount)
         in if length agentItems > 0 then
              (let (l, d1) = newList now ud (agent_id agent) agentItems d
               in case save now l d1 of
                    (Inl e, d2) \<Rightarrow> (Inl e, d2)
                  | (Inr saved, d2) \<Rightarrow>
                      distributeLoop now its ags ud itemsPerAgent remainder (i + 1)
                        (currentIndex + itemCount) (distributions @ [saved])
                        (incrementAssignedCount agent (int (length agentItems)) d2))
            else distributeLoop now its ags ud itemsPerAgent remainder (i + 1)
                   (currentIndex + itemCount) distributions d)
      else (Inr distributions, d))"
  by pat_completeness auto
termination
  by (relation "measure (\<lambda>(now, its, ags, ud, ipa, r, i, ci, ds, d). length ags - i)") auto

text \<open>
  With no agent the quotient is not a number in the source and the loop body never
  runs; \<open>div\<close> and \<open>mod\<close> by zero are 0 here and the loop body never runs either.
\<close>

definition distributeItems ::
  "date \<Rightarrow> contact list \<Rightarrow> agent list \<Rightarrow> uploadData \<Rightarrow> db \<Rightarrow> (error + listDoc list) \<times> db" where
  "distributeItems now its ags ud d =
     distributeLoop now its ags ud (length its div length ags) (length its mod length ags)
       0 0 [] d"

subsection \<open>\<open>updateItemStatus\<close> (instance method)\<close>

text \<open>
  The \<open>additionalData\<close> object that \<open>Object.assign\<close> copies onto the item, over the
  paths of \<open>listItemSchema\<close>: \<open>None\<close> is an absent key. For the two dates,
  \<open>Some None\<close> is a key holding \<open>null\<close>.
\<close>

record additionalData =
  ad_firstName :: "string option"
  ad_phone :: "string option"
  ad_notes :: "string option"
  ad_status :: "string option"
  ad_contactedAt :: "date option option"
  ad_completedAt :: "date option option"

definition assignItem :: "additionalData \<Rightarrow> listItem \<Rightarrow> listItem" where
  "assignItem ad item =
     item\<lparr> item_firstName := (case ad_firstName ad of None \<Rightarrow> item_firstName item | Some v \<Rightarrow> trim v),
           item_phone := (case ad_phone ad of None \<Rightarrow> item_phone item | Some v \<Rightarrow> trim v),
           item_notes := (case ad_notes ad of None \<Rightarrow> item_notes item | Some v \<Rightarrow> trim v),
           status := (case ad_status ad of None \<Rightarrow> status item | Some v \<Rightarrow> v),
           contactedAt := (case ad_contactedAt ad of None \<Rightarrow> contactedAt item | Some v \<Rightarrow> v),
           completedAt := (case ad_completedAt ad of None \<Rightarrow> completedAt item | Some v \<Rightarrow> v) \<rparr>"

text \<open>
  What the method does to the item it found: the status, the first-time stamps (a
  stored date is always truthy), then the additional data.
\<close>

definition touchItem :: "date \<Rightarrow> string \<Rightarrow> additionalData \<Rightarrow> listItem \<Rightarrow> listItem" where
  "touchItem now st ad item =
     (let item1 = item\<lparr> status := st \<rparr>;
          item2 = (if st = ''contacted'' \<and> contactedAt item1 = None
                     then item1\<lparr> contactedAt := Some now \<rparr>
                   else if st = ''completed'' \<and> completedAt item1 = None
                     then item1\<lparr> completedAt := Some now \<rparr>
                   else item1)
      in assignItem ad item2)"

text \<open>\<open>this.items.id(itemId)\<close> finds the first item with that \<open>_id\<close>; \<open>None\<close> when there is none.\<close>

fun updateFirst :: "('a \<Rightarrow> bool) \<Rightarrow> ('a \<Rightarrow> 'a) \<Rightarrow> 'a list \<Rightarrow> 'a list option" where
  "updateFirst p f [] = None"
| "updateFirst p f (x # xs) =
     (if p x then Some (f x # xs)
      else (case updateFirst p f xs of None \<Rightarrow> None | Some ys \<Rightarrow> Some (x # ys)))"

definition updateItemStatus ::
  "date \<Rightarrow> listDoc \<Rightarrow> objectId \<Rightarrow> string \<Rightarrow> additionalData \<Rightarrow> db \<Rightarrow> (error + listDoc) \<times> db" where
  "updateItemStatus now l itemId st ad d =
     (case updateFirst (\<lambda>item. item_id item = itemId) (touchItem now st ad) (items l) of
        None \<Rightarrow> (Inl ItemNotFound, d)
      | Some its \<Rightarrow> save now (l\<lparr> items := its \<rparr>) d)"

section \<open>The list controller\<close>

subsection \<open>\<open>uploadAndDistribute\<close>\<close>

text \<open>
  The controller is modelled from the decoded rows \<open>data\<close> on: a row maps a header,
  trimmed and in lower case, to its cell, and a cell is a string (as the CSV parser
  yields them). Reading and decoding the file stay outside.
\<close>

type_synonym row = "string \<rightharpoonup> string"

definition requiredFields :: "string list" where
  "requiredFields = [''firstname'', ''phone'', ''notes'']"

definition missingFields :: "row list \<Rightarrow> string list" where
  "missingFields data =
     filter (\<lambda>field. case data of [] \<Rightarrow> True | r # _ \<Rightarrow> r field = None) requiredFields"

text \<open>\<open>!v || !v.toString().trim()\<close> for a cell \<open>v\<close> that may be missing.\<close>

definition blankCell :: "string option \<Rightarrow> bool" where
  "blankCell v = (case v of None \<Rightarrow> True | Some s \<Rightarrow> s = [] \<or> trim s = [])"

text \<open>The body of the \<open>forEach\<close>: a row yields one reason or one validated record.\<close>

definition validateRow :: "nat \<Rightarrow> row \<Rightarrow> (nat \<times> rowReason) + contact" where
  "validateRow index r =
     (let rowNumber = index + 2
      in if blankCell (r ''firstname'') then Inl (rowNumber, FirstNameRequired)
         else if blankCell (r ''phone'') then Inl (rowNumber, PhoneRequired)
         else
           (let phone = trim (case r ''phone'' of None \<Rightarrow> [] | Some s \<Rightarrow> s)
            in if \<not> phonePattern phone then Inl (rowNumber, InvalidPhoneFormat)
               else Inr \<lparr> c_firstName = trim (case r ''firstname'' of None \<Rightarrow> [] | Some s \<Rightarrow> s),
                          c_phone = phone,
                          c_notes = trim (case r ''notes'' of None \<Rightarrow> [] | Some s \<Rightarrow> s) \<rparr>))"

fun validateRows ::
  "nat \<Rightarrow> row list \<Rightarrow> contact list \<Rightarrow> (nat \<times> rowReason) list \<Rightarrow>
   contact list \<times> (nat \<times> rowReason) list" where
  "validateRows index [] validatedData errors = (validatedData, errors)"
| "validateRows index (r # rs) validatedData errors =
     (case validateRow index r of
        Inl e \<Rightarrow> validateRows (index + 1) rs validatedData (errors @ [e])
      | Inr c \<Rightarrow> validateRows (index + 1) rs (validatedData @ [c]) errors)"

text \<open>The text of a row-level reason, as the source formats it.\<close>

fun showNat :: "nat \<Rightarrow> string" where
  "showNat n = (if n < 10 then [''0123456789'' ! n]
                else showNat (n div 10) @ [''0123456789'' ! (n mod 10)])"

declare showNat.simps [simp del]

fun reasonText :: "rowReason \<Rightarrow> string" where
  "reasonText FirstNameRequired = ''FirstName is required''"
| "reasonText PhoneRequired = ''Phone is required''"
| "reasonText InvalidPhoneFormat = ''Invalid phone number format''"

definition rowMessage :: "nat \<times> rowReason \<Rightarrow> string" where
  "rowMessage e = ''Row '' @ showNat (fst e) @ '': '' @ reasonText (snd e)"

text \<open>\<open>Agent.findActiveAgents\<close>: the active agents, oldest first.\<close>

definition findActiveAgents :: "db \<Rightarrow> agent list" where
  "findActiveAgents d = sort_key agent_createdAt (filter isActive (agents d))"

text \<open>
  The data of the success response; of each summary entry the agent id and
  \<open>itemsCount\<close> are kept (name and e-mail are copied from the agent).
\<close>

record uploadResponse =
  r_uploadId :: string
  r_totalItems :: nat
  r_totalAgents :: nat
  r_distributions :: "(objectId \<times> int) list"

text \<open>\<open>ud\<close> carries the generated upload id and the file's names.\<close>

definition uploadAndDistribute ::
  "date \<Rightarrow> uploadData \<Rightarrow> row list \<Rightarrow> db \<Rightarrow> (error + uploadResponse) \<times> db" where
  "uploadAndDistribute now ud data d =
     (let missing = missingFields data
      in if length missing > 0 then (Inl (MissingColumns missing), d)
         else
           (let (validatedData, errors) = validateRows 0 data [] []
            in if length errors > 0 then (Inl (DataValidationFailed errors), d)
               else if length validatedData = 0 then (Inl NoValidData, d)
               else
                 (let ags = findActiveAgents d
                  in if length ags = 0 then (Inl NoActiveAgents, d)
                     else
                       (case distributeItems now validatedData ags ud d of
                          (Inl e, d') \<Rightarrow> (Inl e, d')
                        | (Inr distributions, d') \<Rightarrow>
                            (Inr \<lparr> r_uploadId = ud_uploadId ud,
                                   r_totalItems = length validatedData,
                                   r_totalAgents = length ags,
                                   r_distributions =
                                     map (\<lambda>dist. (agentId dist, totalItems dist)) distributions \<rparr>,
                             d')))))"

subsection \<open>\<open>updateItemStatus\<close> (request handler)\<close>

definition findListById :: "objectId \<Rightarrow> db \<Rightarrow> listDoc option" where
  "findListById listId d = find (\<lambda>l. list_id l = listId) (lists d)"

definition noAdditionalData :: additionalData where
  "noAdditionalData =
     \<lparr> ad_firstName = None, ad_phone = None, ad_notes = None, ad_status = None,
       ad_contactedAt = None, ad_completedAt = None \<rparr>"

text \<open>The body's \<open>notes\<close> is copied only when it is truthy: present and not empty.\<close>

definition updateItemStatusHandler ::
  "date \<Rightarrow> objectId \<Rightarrow> objectId \<Rightarrow> string \<Rightarrow> string option \<Rightarrow> db \<Rightarrow> (error + listDoc) \<times> db" where
  "updateItemStatusHandler now listId itemId st bodyNotes d =
     (if st \<notin> set statusEnum then (Inl InvalidStatus, d)
      else
        (case findListById listId d of
           None \<Rightarrow> (Inl ListNotFound, d)
         | Some l \<Rightarrow>
             (let additional =
                    (case bodyNotes of
                       None \<Rightarrow> noAdditionalData
                     | Some n \<Rightarrow> if n = [] then noAdditionalData
                                 else noAdditionalData\<lparr> ad_notes := Some n \<rparr>)
              in updateItemStatus now l itemId st additional d)))"

subsection \<open>\<open>deleteList\<close>\<close>

definition findAgentById :: "objectId \<Rightarrow> db \<Rightarrow> agent option" where
  "findAgentById aid d = find (\<lambda>a. agent_id a = aid) (agents d)"

fun deleteById :: "objectId \<Rightarrow> listDoc list \<Rightarrow> listDoc list" where
  "deleteById listId [] = []"
| "deleteById listId (x # xs) = (if list_id x = listId then xs else x # deleteById listId xs)"

definition deleteList :: "objectId \<Rightarrow> db \<Rightarrow> (error + unit) \<times> db" where
  "deleteList listId d =
     (case findListById listId d of
        None \<Rightarrow> (Inl ListNotFound, d)
      | Some l \<Rightarrow>
          (let d1 = (case findAgentById (agentId l) d of
                       None \<Rightarrow> d
                     | Some agent \<Rightarrow>
                         saveAgent
                           (agent\<lparr> assignedListsCount := max 0 (assignedListsCount agent - 1),
                                   totalItemsAssigned :=
                                     max 0 (totalItemsAssigned agent - totalItems l) \<rparr>) d)
           in (Inr (), d1\<lparr> lists := deleteById listId (lists d1) \<rparr>)))"

subsection \<open>Aggregations\<close>
















section \<open>Notions used to state the properties\<close>

text \<open>The counters of a document agree with a recount of its items.\<close>

definition countersOk :: "listDoc \<Rightarrow> bool" where
  "countersOk l =
     (totalItems l = int (length (items l))
      \<and> completedItems l = int (length (filter (\<lambda>item. status item = ''completed'') (items l)))
      \<and> pendingItems l = int (length (filter (\<lambda>item. status item = ''pending'') (items l))))"

text \<open>The contact data held by an item, and a contact after the schema's \<open>trim\<close> setters.\<close>

definition contactOf :: "listItem \<Rightarrow> contact" where
  "contactOf item =
     \<lparr> c_firstName = item_firstName item, c_phone = item_phone item, c_notes = item_notes item \<rparr>"

definition trimContact :: "contact \<Rightarrow> contact" where
  "trimContact c =
     \<lparr> c_firstName = trim (c_firstName c), c_phone = trim (c_phone c), c_notes = trim (c_notes c) \<rparr>"

text \<open>A contact that the validators of \<open>listItemSchema\<close> accept once it is cast.\<close>

definition contactOk :: "contact \<Rightarrow> bool" where
  "contactOk c = (validateItem (castItem 0 c) = None)"

text \<open>The owner and the contacts of a Sub-List.\<close>

definition listView :: "listDoc \<Rightarrow> objectId \<times> contact list" where
  "listView l = (agentId l, map contactOf (items l))"

text \<open>
  The fair share as the specification words it: with \<open>base = N div M\<close> and
  \<open>extra = N mod M\<close>, position \<open>i\<close> receives \<open>base + 1\<close> items if \<open>i < extra\<close>, else
  \<open>base\<close>; its slice starts where the shares before it end.
\<close>

definition spec_share :: "nat \<Rightarrow> nat \<Rightarrow> nat \<Rightarrow> nat" where
  "spec_share N M i = N div M + (if i < N mod M then 1 else 0)"

definition spec_offset :: "nat \<Rightarrow> nat \<Rightarrow> nat \<Rightarrow> nat" where
  "spec_offset N M i = i * (N div M) + min i (N mod M)"

definition spec_group :: "'a list \<Rightarrow> nat \<Rightarrow> nat \<Rightarrow> 'a list" where
  "spec_group xs M i =
     take (spec_share (length xs) M i) (drop (spec_offset (length xs) M i) xs)"

text \<open>
  The loop of \<open>distributeItems\<close> at position \<open>i\<close>, with \<open>currentIndex\<close> at the start of
  that position's share.
\<close>

definition loopAt ::
  "date \<Rightarrow> contact list \<Rightarrow> agent list \<Rightarrow> uploadData \<Rightarrow> nat \<Rightarrow> listDoc list \<Rightarrow> db \<Rightarrow>
   (error + listDoc list) \<times> db" where
  "loopAt now its ags ud i ds d =
     distributeLoop now its ags ud (length its div length ags) (length its mod length ags)
       i (spec_offset (length its) (length ags) i) ds d"

text \<open>The Sub-List that one round of the loop persists, and the state the round leaves.\<close>

definition persisted :: "date \<Rightarrow> uploadData \<Rightarrow> agent \<Rightarrow> contact list \<Rightarrow> db \<Rightarrow> listDoc" where
  "persisted now ud a g d = preSave now (fst (newList now ud (agent_id a) g d))"

definition afterPersist :: "date \<Rightarrow> uploadData \<Rightarrow> agent \<Rightarrow> contact list \<Rightarrow> db \<Rightarrow> db" where
  "afterPersist now ud a g d =
     incrementAssignedCount a (int (length g))
       (d\<lparr> nextId := nextId d + 1 + length g,
           lists := upsert (persisted now ud a g d) (lists d) \<rparr>)"

text \<open>
  All row-level reasons of the rows \<open>rs\<close>, in row order, and the records of the rows
  that pass, when the first of the rows has index \<open>k\<close>.
\<close>

fun rowErrorsFrom :: "nat \<Rightarrow> row list \<Rightarrow> (nat \<times> rowReason) list" where
  "rowErrorsFrom k [] = []"
| "rowErrorsFrom k (r # rs) =
     (case validateRow k r of Inl e \<Rightarrow> [e] | Inr c \<Rightarrow> []) @ rowErrorsFrom (Suc k) rs"

fun rowContactsFrom :: "nat \<Rightarrow> row list \<Rightarrow> contact list" where
  "rowContactsFrom k [] = []"
| "rowContactsFrom k (r # rs) =
     (case validateRow k r of Inl e \<Rightarrow> [] | Inr c \<Rightarrow> [c]) @ rowContactsFrom (Suc k) rs"

text \<open>Additional data that set neither the status nor one of the two dates.\<close>

definition keepsStatus :: "additionalData \<Rightarrow> bool" where
  "keepsStatus ad = (ad_status ad = None \<and> ad_contactedAt ad = None \<and> ad_completedAt ad = None)"

text \<open>An agent after \<open>incrementAssignedCount\<close> for a share of \<open>n\<close> items, untouched when \<open>n = 0\<close>.\<close>

definition credited :: "agent \<Rightarrow> nat \<Rightarrow> agent" where
  "credited a n =
     (if 0 < n then a\<lparr> assignedListsCount := assignedListsCount a + 1,
                       totalItemsAssigned := totalItemsAssigned a + int n \<rparr>
      else a)"

subsection \<open>Example data\<close>

definition exAgent :: "objectId \<Rightarrow> date \<Rightarrow> agent" where
  "exAgent i t =
     \<lparr> agent_id = i, agent_name = ''agent'', agent_email = ''a@x.io'', isActive = True,
       assignedListsCount = 0, totalItemsAssigned = 0, agent_createdAt = t \<rparr>"

definition exContact :: "string \<Rightarrow> contact" where
  "exContact n = \<lparr> c_firstName = n, c_phone = ''+1 (555) 010-9999'', c_notes = [] \<rparr>"

definition exContacts7 :: "contact list" where
  "exContacts7 = map exContact [''Ann'', ''Bob'', ''Cy'', ''Di'', ''Ed'', ''Flo'', ''Gus'']"

definition exAgents3 :: "agent list" where
  "exAgents3 = [exAgent 1 10, exAgent 2 20, exAgent 3 30]"

definition exUpload :: uploadData where
  "exUpload = \<lparr> ud_uploadId = ''u1'', ud_fileName = ''f.csv'', ud_originalFileName = ''f.csv'',
                ud_uploadedBy = 0 \<rparr>"

definition exDb :: db where
  "exDb = \<lparr> lists = [], agents = exAgents3, nextId = 100 \<rparr>"

definition exRow :: "string \<Rightarrow> string \<Rightarrow> string \<Rightarrow> row" where
  "exRow f p n = [''firstname'' \<mapsto> f, ''phone'' \<mapsto> p, ''notes'' \<mapsto> n]"

text \<open>The example database after the seven contacts were distributed.\<close>

definition exDb1 :: db where
  "exDb1 = snd (distributeItems 5 exContacts7 exAgents3 exUpload exDb)"

text \<open>Four data rows: a phone of letters, a blank first name, a good row, an empty phone.\<close>

definition exBadRows :: "row list" where
  "exBadRows = [exRow ''Ann'' ''abc'' [], exRow ''  '' ''123'' ''x'', exRow ''Bob'' ''555 0100'' ''n'',
                exRow ''Cy'' [] []]"

text \<open>A good row whose notes hold 501 characters.\<close>

definition exLongNotesRow :: row where
  "exLongNotesRow = exRow ''Ann'' ''555 0100'' (replicate 501 CHR ''x'')"





section \<open>The fair share of \<open>distributeItems\<close>\<close>

declare distributeLoop.simps [simp del]

subsection \<open>Shares, offsets and groups\<close>

lemma spec_offset_Suc: "spec_offset N M (Suc i) = spec_offset N M i + spec_share N M i"
  by (simp add: spec_offset_def spec_share_def min_def)

lemma spec_offset_0: "spec_offset N M 0 = 0"
  by (simp add: spec_offset_def)

lemma spec_offset_all: "0 < M \<Longrightarrow> spec_offset N M M = N"
proof -
  assume "0 < M"
  then have "N mod M < M" by simp
  then have "min M (N mod M) = N mod M" by simp
  then show ?thesis by (simp add: spec_offset_def)
qed

lemma concat_groups_take:
  "concat (map (spec_group xs M) [0..<k]) = take (spec_offset (length xs) M k) xs"
proof (induction k)
  case 0
  show ?case by (simp add: spec_offset_0)
next
  case (Suc k)
  have step: "take (spec_offset (length xs) M k) xs @ spec_group xs M k =
      take (spec_offset (length xs) M (Suc k)) xs"
    by (simp add: spec_group_def spec_offset_Suc take_add)
  show ?case
    by (simp add: Suc step)
qed

lemma concat_groups: "0 < M \<Longrightarrow> concat (map (spec_group xs M) [0..<M]) = xs"
  by (simp add: concat_groups_take spec_offset_all)

lemma spec_offset_mono: "i \<le> j \<Longrightarrow> spec_offset N M i \<le> spec_offset N M j"
  unfolding spec_offset_def by (intro add_mono mult_le_mono1 min.mono) simp_all

lemma length_spec_group:
  assumes "i < M"
  shows "length (spec_group xs M i) = spec_share (length xs) M i"
proof -
  have "spec_offset (length xs) M (Suc i) \<le> spec_offset (length xs) M M"
    using assms by (intro spec_offset_mono) simp
  then have "spec_offset (length xs) M (Suc i) \<le> length xs"
    using assms by (simp add: spec_offset_all)
  then show ?thesis
    by (simp add: spec_group_def spec_offset_Suc)
qed

lemma slice_group:
  "slice its (spec_offset (length its) M i)
     (spec_offset (length its) M i + (length its div M + (if i < length its mod M then 1 else 0)))
   = spec_group its M i"
  by (simp add: slice_def spec_group_def spec_share_def)

lemma sum_length_filter_nonempty:
  "sum_list (map length (filter (\<lambda>g. g \<noteq> []) gs)) = sum_list (map length gs)"
  by (induction gs) simp_all

lemma concat_filter_nonempty: "concat (filter (\<lambda>g. g \<noteq> []) gs) = concat gs"
  by (induction gs) simp_all

lemma filter_snd_map:
  "map snd (filter (\<lambda>ag. snd ag \<noteq> []) (map (\<lambda>j. (f j, h j)) js)) =
   filter (\<lambda>g. g \<noteq> []) (map h js)"
  by (induction js) simp_all

subsection \<open>Casting and validating a group\<close>

lemma contactOf_castItems: "map contactOf (castItems n cs) = map trimContact cs"
  by (induction cs arbitrary: n) (simp_all add: contactOf_def castItem_def trimContact_def)

lemma validateItem_castItem: "validateItem (castItem n c) = validateItem (castItem 0 c)"
  by (simp add: validateItem_def castItem_def)

lemma validateItems_castItems:
  "validateItems (castItems n cs) = None \<longleftrightarrow> list_all contactOk cs"
proof (induction cs arbitrary: n)
  case Nil
  show ?case by simp
next
  case (Cons c cs)
  have "validateItem (castItem n c) = None \<longleftrightarrow> contactOk c"
    unfolding contactOk_def by (subst validateItem_castItem) simp
  then show ?case
    using Cons[of "Suc n"] by (auto split: option.splits)
qed

subsection \<open>One round of the loop\<close>

lemma loop_done:
  "\<not> i < length ags \<Longrightarrow>
   distributeLoop now its ags ud ipa r i ci ds d = (Inr ds, d)"
  by (subst distributeLoop.simps) simp

lemma loop_skip:
  "i < length ags \<Longrightarrow> slice its ci (ci + (ipa + (if i < r then 1 else 0))) = [] \<Longrightarrow>
   distributeLoop now its ags ud ipa r i ci ds d =
     distributeLoop now its ags ud ipa r (Suc i) (ci + (ipa + (if i < r then 1 else 0))) ds d"
  by (subst distributeLoop.simps) (simp add: Let_def)

lemma loop_fail:
  assumes "i < length ags" and "g = slice its ci (ci + (ipa + (if i < r then 1 else 0)))"
    and "g \<noteq> []" and "\<not> list_all contactOk g"
  shows "\<exists>m. validateItems (castItems (Suc (nextId d)) g) = Some m \<and>
           distributeLoop now its ags ud ipa r i ci ds d =
             (Inl (ValidationError m), d\<lparr> nextId := nextId d + 1 + length g \<rparr>)"
proof -
  obtain m where m: "validateItems (castItems (Suc (nextId d)) g) = Some m"
    using assms(4) validateItems_castItems[of "Suc (nextId d)" g] by auto
  have "distributeLoop now its ags ud ipa r i ci ds d =
          (Inl (ValidationError m), d\<lparr> nextId := nextId d + 1 + length g \<rparr>)"
    apply (subst distributeLoop.simps)
    using assms(1,3) m
    by (simp add: Let_def assms(2)[symmetric] newList_def save_def)
  with m show ?thesis by blast
qed

lemma loop_step:
  assumes "i < length ags" and "g = slice its ci (ci + (ipa + (if i < r then 1 else 0)))"
    and "g \<noteq> []" and "list_all contactOk g"
  shows "distributeLoop now its ags ud ipa r i ci ds d =
           distributeLoop now its ags ud ipa r (Suc i) (ci + (ipa + (if i < r then 1 else 0)))
             (ds @ [persisted now ud (ags ! i) g d]) (afterPersist now ud (ags ! i) g d)"
proof -
  have v: "validateItems (castItems (Suc (nextId d)) g) = None"
    using assms(4) validateItems_castItems[of "Suc (nextId d)" g] by simp
  show ?thesis
    apply (subst distributeLoop.simps)
    using assms(1,3) v
    by (simp add: Let_def assms(2)[symmetric] newList_def save_def persisted_def afterPersist_def)
qed

lemma distributeItems_loopAt: "distributeItems now its ags ud d = loopAt now its ags ud 0 [] d"
  by (simp add: distributeItems_def loopAt_def spec_offset_0)

lemma loopAt_done:
  "\<not> i < length ags \<Longrightarrow> loopAt now its ags ud i ds d = (Inr ds, d)"
  by (simp add: loopAt_def loop_done)

lemma loopAt_skip:
  assumes "i < length ags" and "spec_group its (length ags) i = []"
  shows "loopAt now its ags ud i ds d = loopAt now its ags ud (Suc i) ds d"
  unfolding loopAt_def
  by (subst loop_skip) (simp_all add: assms slice_group spec_offset_Suc spec_share_def)

lemma loopAt_fail:
  assumes "i < length ags" and "spec_group its (length ags) i \<noteq> []"
    and "\<not> list_all contactOk (spec_group its (length ags) i)"
  shows "\<exists>m. validateItems (castItems (Suc (nextId d)) (spec_group its (length ags) i)) = Some m
         \<and> loopAt now its ags ud i ds d =
           (Inl (ValidationError m),
            d\<lparr> nextId := nextId d + 1 + length (spec_group its (length ags) i) \<rparr>)"
  unfolding loopAt_def
  by (rule loop_fail) (simp_all add: assms slice_group)

lemma loopAt_step:
  assumes "i < length ags" and "spec_group its (length ags) i \<noteq> []"
    and "list_all contactOk (spec_group its (length ags) i)"
  shows "loopAt now its ags ud i ds d =
           loopAt now its ags ud (Suc i)
             (ds @ [persisted now ud (ags ! i) (spec_group its (length ags) i) d])
             (afterPersist now ud (ags ! i) (spec_group its (length ags) i) d)"
  unfolding loopAt_def
  by (subst loop_step[where g = "spec_group its (length ags) i"])
     (simp_all add: assms slice_group spec_offset_Suc spec_share_def)

text \<open>
  Induction over the rounds of the loop: it has ended, or the share at \<open>i\<close> is empty and
  is skipped, or its Sub-List is rejected by validation, or the Sub-List is stored.
\<close>

lemma loopAt_induct [case_names finished skipped rejected stored]:
  assumes "\<And>i ds d. \<not> i < length ags \<Longrightarrow> P i ds d (Inr ds, d)"
    and "\<And>i ds d. i < length ags \<Longrightarrow> spec_group its (length ags) i = [] \<Longrightarrow>
           P (Suc i) ds d (loopAt now its ags ud (Suc i) ds d) \<Longrightarrow>
           P i ds d (loopAt now its ags ud (Suc i) ds d)"
    and "\<And>i ds d m. i < length ags \<Longrightarrow> spec_group its (length ags) i \<noteq> [] \<Longrightarrow>
           \<not> list_all contactOk (spec_group its (length ags) i) \<Longrightarrow>
           validateItems (castItems (Suc (nextId d)) (spec_group its (length ags) i)) = Some m \<Longrightarrow>
           P i ds d (Inl (ValidationError m),
                     d\<lparr> nextId := nextId d + 1 + length (spec_group its (length ags) i) \<rparr>)"
    and "\<And>i ds d. i < length ags \<Longrightarrow> spec_group its (length ags) i \<noteq> [] \<Longrightarrow>
           list_all contactOk (spec_group its (length ags) i) \<Longrightarrow>
           P (Suc i) (ds @ [persisted now ud (ags ! i) (spec_group its (length ags) i) d])
             (afterPersist now ud (ags ! i) (spec_group its (length ags) i) d)
             (loopAt now its ags ud (Suc i)
                (ds @ [persisted now ud (ags ! i) (spec_group its (length ags) i) d])
                (afterPersist now ud (ags ! i) (spec_group its (length ags) i) d)) \<Longrightarrow>
           P i ds d
             (loopAt now its ags ud (Suc i)
                (ds @ [persisted now ud (ags ! i) (spec_group its (length ags) i) d])
                (afterPersist now ud (ags ! i) (spec_group its (length ags) i) d))"
  shows "P i ds d (loopAt now its ags ud i ds d)"
proof (induction "length ags - i" arbitrary: i ds d)
  case 0
  then have "\<not> i < length ags" by simp
  then show ?case
    by (simp add: loopAt_done assms(1))
next
  case (Suc k)
  then have lt: "i < length ags" and k: "k = length ags - Suc i" by simp_all
  let ?g = "spec_group its (length ags) i"
  show ?case
  proof (cases "?g = []")
    case True
    show ?thesis
      using assms(2)[OF lt True Suc.hyps(1)[OF k]] by (simp add: loopAt_skip[OF lt True])
  next
    case False
    show ?thesis
    proof (cases "list_all contactOk ?g")
      case True
      show ?thesis
        using assms(4)[OF lt False True Suc.hyps(1)[OF k]]
        by (simp add: loopAt_step[OF lt False True])
    next
      case nok: False
      obtain m where m: "validateItems (castItems (Suc (nextId d)) ?g) = Some m"
        and "loopAt now its ags ud i ds d =
           (Inl (ValidationError m), d\<lparr> nextId := nextId d + 1 + length ?g \<rparr>)"
        using loopAt_fail[OF lt False nok] by blast
      then show ?thesis
        using assms(3)[OF lt False nok m] by simp
    qed
  qed
qed

subsection \<open>What the loop returns\<close>

lemma listView_persisted:
  "listView (persisted now ud a g d) = (agent_id a, map trimContact g)"
  by (simp add: listView_def persisted_def preSave_def newList_def contactOf_castItems)

lemma loopAt_view:
  "\<forall>out d'. loopAt now its ags ud i ds d = (Inr out, d') \<longrightarrow>
     map listView out = map listView ds @
       filter (\<lambda>ag. snd ag \<noteq> [])
         (map (\<lambda>j. (agent_id (ags ! j), map trimContact (spec_group its (length ags) j)))
            [i..<length ags])"
proof (induction i ds d rule: loopAt_induct[where now = now and its = its and ags = ags and ud = ud])
  case (finished i ds d)
  then show ?case by simp
next
  case (skipped i ds d)
  then show ?case by (simp add: upt_conv_Cons)
next
  case (rejected i ds d m)
  show ?case by simp
next
  case (stored i ds d)
  then show ?case by (simp add: upt_conv_Cons listView_persisted)
qed

lemma loopAt_succeeds:
  "list_all contactOk its \<longrightarrow> (\<exists>out d'. loopAt now its ags ud i ds d = (Inr out, d'))"
proof (induction i ds d rule: loopAt_induct[where now = now and its = its and ags = ags and ud = ud])
  case (rejected i ds d m)
  have "set (spec_group its (length ags) i) \<subseteq> set its"
    unfolding spec_group_def by (meson set_take_subset set_drop_subset subset_trans)
  with rejected(3) show ?case
    by (auto simp: list_all_iff)
qed simp_all

text \<open>
  C1. For every sequence \<open>its\<close> of \<open>N\<close> contacts and every non-empty sequence \<open>ags\<close> of
  \<open>M\<close> agents: if the schema accepts every contact, \<open>distributeItems\<close> succeeds; whenever
  it succeeds, the Sub-Lists it returns are, in the order of the agents, the non-empty
  ones among the groups \<open>spec_group its M i\<close>, each owned by the agent at position \<open>i\<close>
  and holding (after the schema's trim) that group's contacts, so that the returned
  Sub-Lists joined in order are the whole input and their sizes sum to \<open>N\<close>. The group
  of position \<open>i\<close> is the contiguous slice of size \<open>N div M + 1\<close> if \<open>i < N mod M\<close> and
  \<open>N div M\<close> otherwise; the groups joined in order are the input, and their sizes sum
  to \<open>N\<close>.
\<close>

theorem distributeItems_fair_share:
  assumes "ags \<noteq> []"
  shows "(list_all contactOk its \<longrightarrow> (\<exists>out d'. distributeItems now its ags ud d = (Inr out, d')))
    \<and> (\<forall>out d'. distributeItems now its ags ud d = (Inr out, d') \<longrightarrow>
          map listView out =
            filter (\<lambda>ag. snd ag \<noteq> [])
              (map (\<lambda>i. (agent_id (ags ! i), map trimContact (spec_group its (length ags) i)))
                 [0..<length ags])
          \<and> concat (map (\<lambda>l. map contactOf (items l)) out) = map trimContact its
          \<and> sum_list (map (\<lambda>l. length (items l)) out) = length its)
    \<and> (\<forall>i<length ags. length (spec_group its (length ags) i) =
          length its div length ags + (if i < length its mod length ags then 1 else 0))
    \<and> concat (map (spec_group its (length ags)) [0..<length ags]) = its
    \<and> (\<Sum>i<length ags. length (spec_group its (length ags) i)) = length its"
proof -
  let ?M = "length ags"
  let ?groups = "map (\<lambda>i. map trimContact (spec_group its ?M i)) [0..<?M]"
  have M: "0 < ?M" using assms by simp
  have cc: "concat (map (spec_group its ?M) [0..<?M]) = its"
    by (rule concat_groups[OF M])
  have sizes: "\<forall>i<?M. length (spec_group its ?M i) =
      length its div ?M + (if i < length its mod ?M then 1 else 0)"
    by (simp add: length_spec_group spec_share_def)
  have "(\<Sum>i<?M. length (spec_group its ?M i)) =
      sum_list (map length (map (spec_group its ?M) [0..<?M]))"
    by (simp add: sum_list_sum_nth atLeast0LessThan)
  also have "\<dots> = length (concat (map (spec_group its ?M) [0..<?M]))"
    by (simp add: length_concat)
  finally have total: "(\<Sum>i<?M. length (spec_group its ?M i)) = length its"
    by (simp only: cc)
  have cg: "concat ?groups = map trimContact its"
    using arg_cong[OF cc, of "map trimContact"] by (simp add: map_concat comp_def)
  have code: "map listView out =
            filter (\<lambda>ag. snd ag \<noteq> [])
              (map (\<lambda>i. (agent_id (ags ! i), map trimContact (spec_group its ?M i))) [0..<?M])
          \<and> concat (map (\<lambda>l. map contactOf (items l)) out) = map trimContact its
          \<and> sum_list (map (\<lambda>l. length (items l)) out) = length its"
    if run: "distributeItems now its ags ud d = (Inr out, d')" for out d'
  proof -
    have v: "map listView out =
            filter (\<lambda>ag. snd ag \<noteq> [])
              (map (\<lambda>i. (agent_id (ags ! i), map trimContact (spec_group its ?M i))) [0..<?M])"
      using loopAt_view[of now its ags ud 0 "[]" d] run
      by (simp add: distributeItems_loopAt)
    have s: "map (\<lambda>l. map contactOf (items l)) out = filter (\<lambda>g. g \<noteq> []) ?groups"
      using arg_cong[OF v, of "map snd"]
      by (simp add: filter_snd_map listView_def comp_def)
    have c: "concat (map (\<lambda>l. map contactOf (items l)) out) = map trimContact its"
      by (simp only: s concat_filter_nonempty cg)
    have "sum_list (map (\<lambda>l. length (items l)) out) =
        length (concat (map (\<lambda>l. map contactOf (items l)) out))"
      by (simp add: length_concat comp_def)
    then have "sum_list (map (\<lambda>l. length (items l)) out) = length its"
      by (simp only: c length_map)
    with v c show ?thesis by simp
  qed
  have ok: "list_all contactOk its \<longrightarrow> (\<exists>out d'. distributeItems now its ags ud d = (Inr out, d'))"
    using loopAt_succeeds[of its now ags ud 0 "[]" d] by (simp add: distributeItems_loopAt)
  show ?thesis
    using ok code sizes cc total by blast
qed

text \<open>Seven contacts over three agents: the Sub-Lists hold 3, 2 and 2 items.\<close>

theorem distributeItems_fair_share_witness:
  "exAgents3 \<noteq> [] \<and> list_all contactOk exContacts7
   \<and> (\<exists>out d'. distributeItems 5 exContacts7 exAgents3 exUpload exDb = (Inr out, d')
        \<and> map (\<lambda>l. (agentId l, length (items l))) out = [(1, 3), (2, 2), (3, 2)]
        \<and> sum_list (map (\<lambda>l. length (items l)) out) = 7)"
proof -
  have ne: "exAgents3 \<noteq> []"
    by (simp add: exAgents3_def)
  have ok: "list_all contactOk exContacts7"
    by code_simp
  have len: "length exContacts7 = 7"
    by (simp add: exContacts7_def)
  obtain out d' where run: "distributeItems 5 exContacts7 exAgents3 exUpload exDb = (Inr out, d')"
    and total: "sum_list (map (\<lambda>l. length (items l)) out) = length exContacts7"
    using distributeItems_fair_share[OF ne, of exContacts7 5 exUpload exDb] ok by blast
  have "map (\<lambda>l. (agentId l, length (items l)))
          (case distributeItems 5 exContacts7 exAgents3 exUpload exDb of
             (Inr res, _) \<Rightarrow> res | (Inl _, _) \<Rightarrow> []) = [(1, 3), (2, 2), (3, 2)]"
    by code_simp
  then have "map (\<lambda>l. (agentId l, length (items l))) out = [(1, 3), (2, 2), (3, 2)]"
    by (simp add: run)
  with ne ok run total len show ?thesis by simp
qed

section \<open>The cached counters\<close>

lemma countersOk_preSave: "countersOk (preSave now l)"
  by (simp add: countersOk_def preSave_def)

lemma preSave_stale_counters:
  "preSave now (l\<lparr> totalItems := a, completedItems := b, pendingItems := c \<rparr>) = preSave now l"
  by (simp add: preSave_def)

lemma set_upsert: "set (upsert l xs) \<subseteq> insert l (set xs)"
  by (induction xs) auto

lemma upsert_mem: "l \<in> set (upsert l xs)"
  by (induction xs) auto

lemma set_deleteById: "set (deleteById i xs) \<subseteq> set xs"
  by (induction xs) auto

lemma save_counters:
  assumes "\<forall>x\<in>set (lists d). countersOk x" and "save now l d = (r, d')"
  shows "(\<forall>x\<in>set (lists d'). countersOk x) \<and> (\<forall>l'. r = Inr l' \<longrightarrow> countersOk l' \<and> l' \<in> set (lists d'))"
proof (cases "validateItems (items l)")
  case None
  then have r: "r = Inr (preSave now l)" and d': "lists d' = upsert (preSave now l) (lists d)"
    using assms(2) by (auto simp: save_def Let_def)
  have "\<forall>x\<in>set (lists d'). countersOk x"
    using assms(1) set_upsert[of "preSave now l" "lists d"] countersOk_preSave[of now l]
    unfolding d' by blast
  then show ?thesis
    by (simp add: r d' countersOk_preSave upsert_mem)
next
  case (Some m)
  then show ?thesis
    using assms by (auto simp: save_def)
qed

lemma lists_saveAgent [simp]: "lists (saveAgent a d) = lists d"
  by (simp add: saveAgent_def)

lemma lists_incrementAssignedCount [simp]: "lists (incrementAssignedCount a n d) = lists d"
  by (simp add: incrementAssignedCount_def)

lemma lists_afterPersist:
  "lists (afterPersist now ud a g d) = upsert (persisted now ud a g d) (lists d)"
  by (simp add: afterPersist_def)

lemma countersOk_persisted: "countersOk (persisted now ud a g d)"
  by (simp add: persisted_def countersOk_preSave)

lemma loopAt_counters:
  "(\<forall>x\<in>set (lists d). countersOk x) \<and> (\<forall>x\<in>set ds. countersOk x) \<longrightarrow>
   (\<forall>x\<in>set (lists (snd (loopAt now its ags ud i ds d))). countersOk x)
   \<and> (\<forall>out. fst (loopAt now its ags ud i ds d) = Inr out \<longrightarrow> (\<forall>x\<in>set out. countersOk x))"
proof (induction i ds d rule: loopAt_induct[where now = now and its = its and ags = ags and ud = ud])
  case (finished i ds d)
  show ?case by simp
next
  case (skipped i ds d)
  from skipped(3) show ?case .
next
  case (rejected i ds d m)
  show ?case by simp
next
  case (stored i ds d)
  let ?p = "persisted now ud (ags ! i) (spec_group its (length ags) i) d"
  have p: "countersOk ?p"
    by (rule countersOk_persisted)
  have "\<forall>x\<in>set (upsert ?p (lists d)). countersOk x" if "\<forall>x\<in>set (lists d). countersOk x"
    using that set_upsert[of ?p "lists d"] p by blast
  moreover have "\<forall>x\<in>set (ds @ [?p]). countersOk x" if "\<forall>x\<in>set ds. countersOk x"
    using that p by simp
  ultimately show ?case
    using stored(4) unfolding lists_afterPersist by blast
qed


lemma distributeItems_counters:
  assumes "\<forall>x\<in>set (lists d). countersOk x" and "distributeItems now its ags ud d = (r, d')"
  shows "(\<forall>x\<in>set (lists d'). countersOk x) \<and> (\<forall>out. r = Inr out \<longrightarrow> (\<forall>x\<in>set out. countersOk x))"
  using loopAt_counters[of d "[]" now its ags ud 0] assms
  by (simp add: distributeItems_loopAt)

lemma uploadAndDistribute_db:
  "snd (uploadAndDistribute now ud data d) = d \<or>
   snd (uploadAndDistribute now ud data d) =
     snd (distributeItems now (fst (validateRows 0 data [] [])) (findActiveAgents d) ud d)"
proof -
  obtain vd errs where vr: "validateRows 0 data [] [] = (vd, errs)"
    by (cases "validateRows 0 data [] []")
  obtain r1 d1 where di: "distributeItems now vd (findActiveAgents d) ud d = (r1, d1)"
    by (cases "distributeItems now vd (findActiveAgents d) ud d")
  show ?thesis
    unfolding uploadAndDistribute_def Let_def vr
    by (cases r1) (simp_all add: di)
qed

lemma uploadAndDistribute_counters:
  assumes "\<forall>x\<in>set (lists d). countersOk x" and "uploadAndDistribute now ud data d = (r, d')"
  shows "\<forall>x\<in>set (lists d'). countersOk x"
proof -
  let ?run = "distributeItems now (fst (validateRows 0 data [] [])) (findActiveAgents d) ud d"
  have "\<forall>x\<in>set (lists (snd ?run)). countersOk x"
    using distributeItems_counters[OF assms(1), of now _ _ ud "fst ?run" "snd ?run"] by simp
  moreover have "d' = d \<or> d' = snd ?run"
    using uploadAndDistribute_db[of now ud data d] assms(2) by simp
  ultimately show ?thesis
    using assms(1) by blast
qed

lemma updateItemStatus_counters:
  assumes "\<forall>x\<in>set (lists d). countersOk x" and "updateItemStatus now l itemId st ad d = (r, d')"
  shows "(\<forall>x\<in>set (lists d'). countersOk x) \<and> (\<forall>l'. r = Inr l' \<longrightarrow> countersOk l' \<and> l' \<in> set (lists d'))"
proof (cases "updateFirst (\<lambda>item. item_id item = itemId) (touchItem now st ad) (items l)")
  case None
  then show ?thesis
    using assms by (auto simp: updateItemStatus_def)
next
  case (Some its)
  then have "save now (l\<lparr> items := its \<rparr>) d = (r, d')"
    using assms(2) by (simp add: updateItemStatus_def)
  from save_counters[OF assms(1) this] show ?thesis .
qed

lemma updateItemStatusHandler_counters:
  assumes "\<forall>x\<in>set (lists d). countersOk x"
    and "updateItemStatusHandler now listId itemId st bodyNotes d = (r, d')"
  shows "(\<forall>x\<in>set (lists d'). countersOk x) \<and> (\<forall>l'. r = Inr l' \<longrightarrow> countersOk l' \<and> l' \<in> set (lists d'))"
proof (cases "st \<in> set statusEnum")
  case False
  then show ?thesis
    using assms by (auto simp: updateItemStatusHandler_def)
next
  case True
  show ?thesis
  proof (cases "findListById listId d")
    case None
    then show ?thesis
      using assms True by (auto simp: updateItemStatusHandler_def)
  next
    case (Some l)
    then obtain ad where "updateItemStatus now l itemId st ad d = (r, d')"
      using assms(2) True by (simp add: updateItemStatusHandler_def Let_def)
    from updateItemStatus_counters[OF assms(1) this] show ?thesis .
  qed
qed

lemma deleteList_counters:
  assumes "\<forall>x\<in>set (lists d). countersOk x" and "deleteList listId d = (r, d')"
  shows "\<forall>x\<in>set (lists d'). countersOk x"
proof -
  have "set (lists d') \<subseteq> set (lists d)"
    using assms(2) set_deleteById[of listId "lists d"]
    by (auto simp: deleteList_def Let_def split: option.splits)
  with assms(1) show ?thesis by blast
qed

lemma findListById_id: "findListById listId d = Some l \<Longrightarrow> list_id l = listId"
  unfolding findListById_def by (induction "lists d" arbitrary: d) (auto simp: find_Some_iff)

text \<open>
  C2. If the counters of every stored Sub-List agree with a recount of its items, they
  still do after each operation that writes Sub-Lists, whatever the operation returns:
  an upload and its \<open>distributeItems\<close> (creation), the status update of the request
  handler, the method \<open>updateItemStatus\<close> called on a document that is the stored one
  (as the handler calls it), and a deletion. Every Sub-List that \<open>distributeItems\<close> or
  such a status update returns has counters that agree with its items, and the updated
  one is stored. The pre-save hook does not read the counters it finds (stale counters
  give the same document) and by itself makes the three counters equal to
  \<open>items.length\<close>, the number of completed and the number of pending items.
\<close>

theorem counters_recomputed_on_every_save:
  assumes "\<forall>x\<in>set (lists d). countersOk x"
  shows "(\<forall>r d'. uploadAndDistribute now ud data d = (r, d') \<longrightarrow>
            (\<forall>x\<in>set (lists d'). countersOk x))
    \<and> (\<forall>r d'. distributeItems now its ags ud d = (r, d') \<longrightarrow>
            (\<forall>x\<in>set (lists d'). countersOk x)
            \<and> (\<forall>out. r = Inr out \<longrightarrow> (\<forall>x\<in>set out. countersOk x)))
    \<and> (findListById (list_id l) d = Some l \<longrightarrow>
         (\<forall>r d'. updateItemStatus now l itemId st ad d = (r, d') \<longrightarrow>
            (\<forall>x\<in>set (lists d'). countersOk x)
            \<and> (\<forall>l'. r = Inr l' \<longrightarrow> countersOk l' \<and> l' \<in> set (lists d'))))
    \<and> (\<forall>r d'. updateItemStatusHandler now listId itemId st bodyNotes d = (r, d') \<longrightarrow>
            (\<forall>x\<in>set (lists d'). countersOk x)
            \<and> (\<forall>l'. r = Inr l' \<longrightarrow> countersOk l' \<and> l' \<in> set (lists d')))
    \<and> (\<forall>r d'. deleteList listId d = (r, d') \<longrightarrow> (\<forall>x\<in>set (lists d'). countersOk x))
    \<and> (\<forall>a b c. preSave now (l\<lparr> totalItems := a, completedItems := b, pendingItems := c \<rparr>)
                 = preSave now l)
    \<and> countersOk (preSave now l)"
proof -
  have 1: "\<forall>r d'. uploadAndDistribute now ud data d = (r, d') \<longrightarrow>
            (\<forall>x\<in>set (lists d'). countersOk x)"
    using uploadAndDistribute_counters[OF assms] by blast
  have 2: "\<forall>r d'. distributeItems now its ags ud d = (r, d') \<longrightarrow>
            (\<forall>x\<in>set (lists d'). countersOk x)
            \<and> (\<forall>out. r = Inr out \<longrightarrow> (\<forall>x\<in>set out. countersOk x))"
    using distributeItems_counters[OF assms] by blast
  have 3: "findListById (list_id l) d = Some l \<longrightarrow>
         (\<forall>r d'. updateItemStatus now l itemId st ad d = (r, d') \<longrightarrow>
            (\<forall>x\<in>set (lists d'). countersOk x)
            \<and> (\<forall>l'. r = Inr l' \<longrightarrow> countersOk l' \<and> l' \<in> set (lists d')))"
    using updateItemStatus_counters[OF assms] by blast
  have 4: "\<forall>r d'. updateItemStatusHandler now listId itemId st bodyNotes d = (r, d') \<longrightarrow>
            (\<forall>x\<in>set (lists d'). countersOk x)
            \<and> (\<forall>l'. r = Inr l' \<longrightarrow> countersOk l' \<and> l' \<in> set (lists d'))"
    using updateItemStatusHandler_counters[OF assms] by blast
  have 5: "\<forall>r d'. deleteList listId d = (r, d') \<longrightarrow> (\<forall>x\<in>set (lists d'). countersOk x)"
    using deleteList_counters[OF assms] by blast
  have 6: "\<forall>a b c. preSave now (l\<lparr> totalItems := a, completedItems := b, pendingItems := c \<rparr>)
                 = preSave now l"
    by (simp add: preSave_stale_counters)
  show ?thesis
    by (intro conjI 1 2 3 4 5 6 countersOk_preSave)
qed

text \<open>
  In the example database, marking item 102 of the stored Sub-List 100 completed, by
  the method or by the request handler, leaves that Sub-List with 3 items, 1 completed
  and 2 pending.
\<close>

theorem counters_recomputed_on_every_save_witness:
  "list_all countersOk (lists exDb1)
   \<and> (\<exists>l. findListById 100 exDb1 = Some l \<and> findListById (list_id l) exDb1 = Some l
         \<and> (\<exists>l' d'. updateItemStatus 9 l 102 ''completed'' noAdditionalData exDb1 = (Inr l', d')
               \<and> countersOk l' \<and> l' \<in> set (lists d') \<and> list_all countersOk (lists d')))
   \<and> (\<exists>l' d'. updateItemStatusHandler 9 100 102 ''completed'' None exDb1 = (Inr l', d')
         \<and> countersOk l' \<and> l' \<in> set (lists d') \<and> list_all countersOk (lists d')
         \<and> totalItems l' = 3 \<and> completedItems l' = 1 \<and> pendingItems l' = 2)"
proof -
  have h: "\<forall>x\<in>set (lists exDb1). countersOk x"
    by code_simp
  note c2 = counters_recomputed_on_every_save[OF h, where now = 9 and listId = 100
        and itemId = 102 and st = "''completed''" and bodyNotes = None
        and ad = noAdditionalData]
  have "case updateItemStatusHandler 9 100 102 ''completed'' None exDb1 of
          (Inr l', _) \<Rightarrow> totalItems l' = 3 \<and> completedItems l' = 1 \<and> pendingItems l' = 2
        | (Inl _, _) \<Rightarrow> False"
    by code_simp
  then obtain l' d' where
    run: "updateItemStatusHandler 9 100 102 ''completed'' None exDb1 = (Inr l', d')"
    and vals: "totalItems l' = 3" "completedItems l' = 1" "pendingItems l' = 2"
    by (auto split: prod.splits sum.splits)
  have handler: "(\<forall>x\<in>set (lists d'). countersOk x) \<and> countersOk l' \<and> l' \<in> set (lists d')"
    using c2 run by blast
  have "findListById 100 exDb1 \<noteq> None"
    by code_simp
  then obtain l where l: "findListById 100 exDb1 = Some l"
    by blast
  then have stored: "findListById (list_id l) exDb1 = Some l"
    using findListById_id[OF l] by simp
  have "updateItemStatus 9 l 102 ''completed'' noAdditionalData exDb1 = (Inr l', d')"
    using run l by (simp add: updateItemStatusHandler_def statusEnum_def)
  moreover from c2[where l = l] stored
  have "\<forall>r e. updateItemStatus 9 l 102 ''completed'' noAdditionalData exDb1 = (r, e) \<longrightarrow>
            (\<forall>x\<in>set (lists e). countersOk x)
            \<and> (\<forall>k. r = Inr k \<longrightarrow> countersOk k \<and> k \<in> set (lists e))"
    by blast
  ultimately have direct: "\<exists>l' d'. updateItemStatus 9 l 102 ''completed'' noAdditionalData exDb1 =
        (Inr l', d') \<and> countersOk l' \<and> l' \<in> set (lists d') \<and> list_all countersOk (lists d')"
    by (simp add: list_all_iff)
  from h run vals handler l stored direct show ?thesis
    by (simp add: list_all_iff)
qed

section \<open>Row validation in \<open>uploadAndDistribute\<close>\<close>

lemma validateRows_eq:
  "validateRows k rs vd errs = (vd @ rowContactsFrom k rs, errs @ rowErrorsFrom k rs)"
proof (induction rs arbitrary: k vd errs)
  case Nil
  show ?case by simp
next
  case (Cons r rs)
  show ?case
    by (cases "validateRow k r") (simp_all add: Cons)
qed

lemma validateRow_rowNumber: "validateRow i r = Inl (n, reason) \<Longrightarrow> n = i + 2"
  by (simp add: validateRow_def Let_def split: if_splits)

lemma rowErrorsFrom_set:
  "set (rowErrorsFrom k rs) = {e. \<exists>i<length rs. validateRow (k + i) (rs ! i) = Inl e}"
proof (induction rs arbitrary: k)
  case Nil
  show ?case by simp
next
  case (Cons r rs)
  have "{e. \<exists>i<length (r # rs). validateRow (k + i) ((r # rs) ! i) = Inl e} =
        {e. validateRow k r = Inl e} \<union> {e. \<exists>i<length rs. validateRow (Suc k + i) (rs ! i) = Inl e}"
    (is "?L = ?A \<union> ?B")
  proof
    show "?L \<subseteq> ?A \<union> ?B"
    proof
      fix e assume "e \<in> ?L"
      then obtain i where i: "i < length (r # rs)" "validateRow (k + i) ((r # rs) ! i) = Inl e"
        by blast
      show "e \<in> ?A \<union> ?B"
      proof (cases i)
        case 0
        with i show ?thesis by simp
      next
        case (Suc j)
        with i have "j < length rs" "validateRow (Suc k + j) (rs ! j) = Inl e" by simp_all
        then show ?thesis by blast
      qed
    qed
    show "?A \<union> ?B \<subseteq> ?L"
    proof
      fix e assume "e \<in> ?A \<union> ?B"
      then consider "validateRow k r = Inl e"
        | j where "j < length rs" "validateRow (Suc k + j) (rs ! j) = Inl e" by blast
      then show "e \<in> ?L"
      proof cases
        case 1
        then have "0 < length (r # rs) \<and> validateRow (k + 0) ((r # rs) ! 0) = Inl e" by simp
        then show ?thesis by blast
      next
        case 2
        then have "Suc j < length (r # rs) \<and> validateRow (k + Suc j) ((r # rs) ! Suc j) = Inl e"
          by simp
        then show ?thesis by blast
      qed
    qed
  qed
  moreover have "set (rowErrorsFrom k (r # rs)) = ?A \<union> set (rowErrorsFrom (Suc k) rs)"
    by (cases "validateRow k r") auto
  ultimately show ?case
    by (simp only: Cons)
qed

lemma length_rows_split:
  "length (rowContactsFrom k rs) + length (rowErrorsFrom k rs) = length rs"
proof (induction rs arbitrary: k)
  case Nil
  show ?case by simp
next
  case (Cons r rs)
  show ?case
    using Cons[of "Suc k"] by (cases "validateRow k r") simp_all
qed

lemma uploadAndDistribute_row_errors:
  assumes "rowErrorsFrom 0 data \<noteq> []"
  shows "uploadAndDistribute now ud data d =
           (if missingFields data \<noteq> [] then (Inl (MissingColumns (missingFields data)), d)
            else (Inl (DataValidationFailed (rowErrorsFrom 0 data)), d))"
  using assms by (simp add: uploadAndDistribute_def Let_def validateRows_eq)

lemma rowErrorsFrom_lower: "e \<in> set (rowErrorsFrom k rs) \<Longrightarrow> k + 2 \<le> fst e"
proof (induction rs arbitrary: k)
  case Nil
  then show ?case by simp
next
  case (Cons r rs)
  from Cons.prems consider "validateRow k r = Inl e" | "e \<in> set (rowErrorsFrom (Suc k) rs)"
    by (cases "validateRow k r") auto
  then show ?case
  proof cases
    case 1
    then show ?thesis
      using validateRow_rowNumber[of k r "fst e" "snd e"] by simp
  next
    case 2
    from Cons.IH[OF this] show ?thesis by simp
  qed
qed

lemma rowErrorsFrom_sorted: "sorted_wrt (<) (map fst (rowErrorsFrom k rs))"
proof (induction rs arbitrary: k)
  case Nil
  show ?case by simp
next
  case (Cons r rs)
  show ?case
  proof (cases "validateRow k r")
    case (Inr c)
    then show ?thesis by (simp add: Cons)
  next
    case (Inl e)
    have "fst e = k + 2"
      using validateRow_rowNumber[of k r "fst e" "snd e"] Inl by simp
    moreover have "\<forall>x\<in>set (rowErrorsFrom (Suc k) rs). k + 3 \<le> fst x"
      using rowErrorsFrom_lower[of _ "Suc k" rs] by fastforce
    ultimately show ?thesis
      using Inl Cons[of "Suc k"] by fastforce
  qed
qed

text \<open>
  C3. When a data row fails the first-name or phone rules, the upload returns the
  database as it was: nothing is allocated or persisted. If the required columns are
  present, the failure is \<open>DataValidationFailed\<close> with the reasons of all failing rows:
  the list holds exactly the reasons of the rows that fail, one per row in row order,
  and the reason of the row at index \<open>i\<close> carries row number \<open>i + 2\<close>, so the first
  data row is row 2. (If a required column is missing, the failure is the one of the
  column check, which comes first.)
\<close>

theorem row_validation_precedes_distribution:
  assumes "i < length data" and "validateRow i (data ! i) = Inl e"
  shows "snd (uploadAndDistribute now ud data d) = d
    \<and> (missingFields data = [] \<longrightarrow>
          fst (uploadAndDistribute now ud data d) =
            Inl (DataValidationFailed (rowErrorsFrom 0 data)))
    \<and> (missingFields data \<noteq> [] \<longrightarrow>
          fst (uploadAndDistribute now ud data d) = Inl (MissingColumns (missingFields data)))
    \<and> e \<in> set (rowErrorsFrom 0 data) \<and> fst e = i + 2
    \<and> set (rowErrorsFrom 0 data) = {x. \<exists>j<length data. validateRow j (data ! j) = Inl x}
    \<and> sorted_wrt (<) (map fst (rowErrorsFrom 0 data))"
proof -
  have all: "set (rowErrorsFrom 0 data) = {x. \<exists>j<length data. validateRow j (data ! j) = Inl x}"
    using rowErrorsFrom_set[of 0 data] by simp
  have mem: "e \<in> set (rowErrorsFrom 0 data)"
    unfolding all using assms by blast
  then have ne: "rowErrorsFrom 0 data \<noteq> []"
    by auto
  have num: "fst e = i + 2"
    using validateRow_rowNumber[of i "data ! i" "fst e" "snd e"] assms(2) by simp
  show ?thesis
    using all mem num rowErrorsFrom_sorted[of 0 data]
    by (simp add: uploadAndDistribute_row_errors[OF ne])
qed

text \<open>
  The four example rows fail with the reasons of rows 2, 3 and 5, and the database is
  untouched.
\<close>

theorem row_validation_precedes_distribution_witness:
  "0 < length exBadRows \<and> validateRow 0 (exBadRows ! 0) = Inl (2, InvalidPhoneFormat)
   \<and> missingFields exBadRows = []
   \<and> uploadAndDistribute 5 exUpload exBadRows exDb =
        (Inl (DataValidationFailed
               [(2, InvalidPhoneFormat), (3, FirstNameRequired), (5, PhoneRequired)]), exDb)
   \<and> map rowMessage [(2, InvalidPhoneFormat), (3, FirstNameRequired), (5, PhoneRequired)] =
        [''Row 2: Invalid phone number format'', ''Row 3: FirstName is required'',
         ''Row 5: Phone is required'']"
proof -
  have len: "0 < length exBadRows"
    by (simp add: exBadRows_def)
  have bad: "validateRow 0 (exBadRows ! 0) = Inl (2, InvalidPhoneFormat)"
    by code_simp
  have cols: "missingFields exBadRows = []"
    by code_simp
  have errs: "rowErrorsFrom 0 exBadRows =
      [(2, InvalidPhoneFormat), (3, FirstNameRequired), (5, PhoneRequired)]"
    by code_simp
  have msgs: "map rowMessage [(2, InvalidPhoneFormat), (3, FirstNameRequired), (5, PhoneRequired)] =
        [''Row 2: Invalid phone number format'', ''Row 3: FirstName is required'',
         ''Row 5: Phone is required'']"
    by code_simp
  have "snd (uploadAndDistribute 5 exUpload exBadRows exDb) = exDb
      \<and> fst (uploadAndDistribute 5 exUpload exBadRows exDb) =
            Inl (DataValidationFailed (rowErrorsFrom 0 exBadRows))"
    using row_validation_precedes_distribution[OF len bad, of 5 exUpload exDb] cols by simp
  then have "uploadAndDistribute 5 exUpload exBadRows exDb =
      (Inl (DataValidationFailed (rowErrorsFrom 0 exBadRows)), exDb)"
    by (simp add: prod_eq_iff)
  with len bad cols errs msgs show ?thesis
    by simp
qed

subsection \<open>An input without data rows\<close>

lemma missingFields_Nil: "missingFields [] = [''firstname'', ''phone'', ''notes'']"
  by (simp add: missingFields_def requiredFields_def)

lemma loopAt_error_kind:
  "\<forall>e. fst (loopAt now its ags ud i ds d) = Inl e \<longrightarrow> (\<exists>m. e = ValidationError m)"
  by (induction i ds d rule: loopAt_induct[where now = now and its = its and ags = ags and ud = ud])
     simp_all

lemma uploadAndDistribute_never_NoValidData:
  "fst (uploadAndDistribute now ud data d) \<noteq> Inl NoValidData"
proof (cases "missingFields data = []")
  case False
  then show ?thesis
    by (simp add: uploadAndDistribute_def Let_def)
next
  case True
  then have data: "data \<noteq> []"
    using missingFields_Nil by auto
  show ?thesis
  proof (cases "rowErrorsFrom 0 data = []")
    case False
    then show ?thesis
      by (simp add: uploadAndDistribute_row_errors True)
  next
    case noerr: True
    have vd: "rowContactsFrom 0 data \<noteq> []"
      using length_rows_split[of 0 data] noerr data by auto
    obtain r1 d1 where di:
      "distributeItems now (rowContactsFrom 0 data) (findActiveAgents d) ud d = (r1, d1)"
      by (cases "distributeItems now (rowContactsFrom 0 data) (findActiveAgents d) ud d")
    have "r1 \<noteq> Inl NoValidData"
      using loopAt_error_kind[of now "rowContactsFrom 0 data" "findActiveAgents d" ud 0 "[]" d] di
      by (auto simp: distributeItems_loopAt)
    then show ?thesis
      using True noerr vd di
      by (cases r1) (simp_all add: uploadAndDistribute_def Let_def validateRows_eq)
  qed
qed

text \<open>
  C6. With no data row, \<open>data[0]\<close> is undefined and every required field counts as
  missing: the upload fails with the missing-columns reason. The branch that reports
  that no valid data rows were found is never taken, whatever the input.
\<close>

theorem empty_input_reports_missing_columns:
  "uploadAndDistribute now ud [] d =
     (Inl (MissingColumns [''firstname'', ''phone'', ''notes'']), d)
   \<and> fst (uploadAndDistribute now ud data d) \<noteq> Inl NoValidData"
  using uploadAndDistribute_never_NoValidData[of now ud data d]
  by (simp add: uploadAndDistribute_def Let_def missingFields_Nil)

section \<open>Notes and the length validators of the schema\<close>

lemma trim_trim: "trim (trim s) = trim s"
proof -
  define t where "t = dropWhile isWhiteSpace s"
  define v where "v = dropWhile isWhiteSpace (rev t)"
  have tr: "trim s = rev v"
    by (simp add: trim_def t_def v_def)
  have "rev t = takeWhile isWhiteSpace (rev t) @ v"
    unfolding v_def by simp
  then have "rev (rev t) = rev (takeWhile isWhiteSpace (rev t) @ v)"
    by (rule arg_cong)
  then have t: "t = rev v @ rev (takeWhile isWhiteSpace (rev t))"
    by simp
  have hd: "\<not> isWhiteSpace (hd t)" if "t \<noteq> []"
    using that unfolding t_def by (rule hd_dropWhile)
  have front: "dropWhile isWhiteSpace (rev v) = rev v"
  proof (cases "rev v")
    case Nil
    then show ?thesis by simp
  next
    case (Cons a as)
    then have "t = a # as @ rev (takeWhile isWhiteSpace (rev t))"
      using t by simp
    then have "t \<noteq> []" and "hd t = a"
      by (metis list.distinct(1), metis list.sel(1))
    with hd have "\<not> isWhiteSpace a" by simp
    then show ?thesis
      by (simp add: Cons)
  qed
  have rear: "dropWhile isWhiteSpace v = v"
    by (simp add: v_def)
  have "trim (rev v) = rev (dropWhile isWhiteSpace (rev (dropWhile isWhiteSpace (rev v))))"
    by (simp only: trim_def)
  also have "\<dots> = rev (dropWhile isWhiteSpace v)"
    by (simp only: front rev_rev_ident)
  also have "\<dots> = rev v"
    by (simp only: rear)
  finally show ?thesis
    by (simp only: tr)
qed

lemma trim_Nil: "trim [] = []"
  by (simp add: trim_def)

lemma validateRow_Inr:
  assumes "validateRow i r = Inr c"
  shows "\<exists>f p. r ''firstname'' = Some f \<and> r ''phone'' = Some p \<and> trim f \<noteq> [] \<and> trim p \<noteq> []
           \<and> phonePattern (trim p)
           \<and> c = \<lparr> c_firstName = trim f, c_phone = trim p,
                   c_notes = trim (case r ''notes'' of None \<Rightarrow> [] | Some s \<Rightarrow> s) \<rparr>"
  using assms
  by (auto simp: validateRow_def Let_def blankCell_def split: if_splits option.splits)

lemma validateItem_validated:
  assumes "validateRow i r = Inr c"
  shows "validateItem (castItem n c) =
           (if 100 < length (c_firstName c) then Some ''First name cannot exceed 100 characters''
            else if 500 < length (c_notes c) then Some ''Notes cannot exceed 500 characters''
            else None)"
proof -
  obtain f p where c: "c = \<lparr> c_firstName = trim f, c_phone = trim p,
                   c_notes = trim (case r ''notes'' of None \<Rightarrow> [] | Some s \<Rightarrow> s) \<rparr>"
    and ok: "trim f \<noteq> []" "trim p \<noteq> []" "phonePattern (trim p)"
    using validateRow_Inr[OF assms] by blast
  show ?thesis
    using ok by (simp add: c validateItem_def castItem_def trim_trim statusEnum_def)
qed

subsection \<open>A Sub-List that the schema rejects\<close>

lemma validateItems_Some:
  "validateItems xs = Some m \<Longrightarrow> \<exists>x\<in>set xs. validateItem x = Some m"
  by (induction xs) (auto split: option.splits)

lemma set_castItems: "x \<in> set (castItems n cs) \<Longrightarrow> \<exists>c\<in>set cs. \<exists>k. x = castItem k c"
  by (induction cs arbitrary: n) auto

lemma set_spec_group: "set (spec_group its M i) \<subseteq> set its"
  unfolding spec_group_def by (meson set_take_subset set_drop_subset subset_trans)

lemma loopAt_error_message:
  "\<forall>m. fst (loopAt now its ags ud i ds d) = Inl (ValidationError m) \<longrightarrow>
     (\<exists>c\<in>set its. validateItem (castItem 0 c) = Some m)"
proof (induction i ds d rule: loopAt_induct[where now = now and its = its and ags = ags and ud = ud])
  case (rejected i ds d m)
  obtain x where "x \<in> set (castItems (Suc (nextId d)) (spec_group its (length ags) i))"
    and x: "validateItem x = Some m"
    using validateItems_Some[OF rejected(4)] by blast
  then obtain c k where "c \<in> set (spec_group its (length ags) i)" and "x = castItem k c"
    using set_castItems by blast
  then have "c \<in> set its" and "validateItem (castItem 0 c) = Some m"
    using set_spec_group[of its "length ags" i] x validateItem_castItem[of k c] by auto
  then show ?case by auto
qed simp_all

lemma loopAt_rejects:
  "(\<exists>c\<in>set (concat (map (spec_group its (length ags)) [i..<length ags])). \<not> contactOk c) \<longrightarrow>
   (\<exists>m. fst (loopAt now its ags ud i ds d) = Inl (ValidationError m))"
proof (induction i ds d rule: loopAt_induct[where now = now and its = its and ags = ags and ud = ud])
  case (finished i ds d)
  then show ?case by simp
next
  case (skipped i ds d)
  then show ?case by (simp add: upt_conv_Cons)
next
  case (rejected i ds d m)
  show ?case by simp
next
  case (stored i ds d)
  have "\<forall>c\<in>set (spec_group its (length ags) i). contactOk c"
    using stored(3) by (simp add: list_all_iff)
  with stored(1,4) show ?case
    by (auto simp: upt_conv_Cons)
qed

lemma distributeItems_rejects:
  assumes "ags \<noteq> []" and "c \<in> set its" and "\<not> contactOk c"
  shows "\<exists>m. fst (distributeItems now its ags ud d) = Inl (ValidationError m)
           \<and> (\<exists>c'\<in>set its. validateItem (castItem 0 c') = Some m)"
proof -
  have "concat (map (spec_group its (length ags)) [0..<length ags]) = its"
    using assms(1) by (simp add: concat_groups)
  then obtain m where m: "fst (loopAt now its ags ud 0 [] d) = Inl (ValidationError m)"
    using loopAt_rejects[of its ags 0 now ud "[]" d] assms(2,3) by auto
  with loopAt_error_message[of now its ags ud 0 "[]" d] show ?thesis
    by (auto simp: distributeItems_loopAt)
qed

lemma rowContactsFrom_mem:
  "i < length rs \<Longrightarrow> validateRow (k + i) (rs ! i) = Inr c \<Longrightarrow> c \<in> set (rowContactsFrom k rs)"
proof (induction rs arbitrary: k i)
  case Nil
  then show ?case by simp
next
  case (Cons r rs)
  show ?case
  proof (cases i)
    case 0
    with Cons.prems show ?thesis by simp
  next
    case (Suc j)
    with Cons.prems have "j < length rs" "validateRow (Suc k + j) (rs ! j) = Inr c" by simp_all
    from Cons.IH[OF this] show ?thesis by simp
  qed
qed

lemma rowContactsFrom_validated:
  "c \<in> set (rowContactsFrom k rs) \<Longrightarrow> \<exists>i r. validateRow i r = Inr c"
proof (induction rs arbitrary: k)
  case Nil
  then show ?case by simp
next
  case (Cons r rs)
  from Cons.prems consider "validateRow k r = Inr c" | "c \<in> set (rowContactsFrom (Suc k) rs)"
    by (cases "validateRow k r") auto
  then show ?case
    using Cons.IH by cases blast+
qed

lemma uploadAndDistribute_passes:
  assumes "missingFields data = []" and "rowErrorsFrom 0 data = []" and "findActiveAgents d \<noteq> []"
  shows "uploadAndDistribute now ud data d =
           (case distributeItems now (rowContactsFrom 0 data) (findActiveAgents d) ud d of
              (Inl e, d') \<Rightarrow> (Inl e, d')
            | (Inr distributions, d') \<Rightarrow>
                (Inr \<lparr> r_uploadId = ud_uploadId ud,
                       r_totalItems = length (rowContactsFrom 0 data),
                       r_totalAgents = length (findActiveAgents d),
                       r_distributions =
                         map (\<lambda>dist. (agentId dist, totalItems dist)) distributions \<rparr>, d'))"
proof -
  have "data \<noteq> []"
    using assms(1) missingFields_Nil by auto
  then have "rowContactsFrom 0 data \<noteq> []"
    using length_rows_split[of 0 data] assms(2) by auto
  then show ?thesis
    using assms by (simp add: uploadAndDistribute_def Let_def validateRows_eq)
qed

text \<open>
  C5, as the code has it. For a row that passes the first-name and phone rules, the
  notes of the validated record are the trimmed notes cell (empty when the cell is
  missing), at their full length: nothing is truncated. If they are longer than 500
  characters and the upload reaches the distribution (the columns are present, no row
  fails, an agent is active), saving a Sub-List is rejected by a length validator of the
  schema and the upload fails with that validation error. A validated record with notes
  of at most 500 and a first name of at most 100 characters is accepted by the schema.
\<close>

theorem notes_trimmed_and_validated:
  assumes "i < length data" and "validateRow i (data ! i) = Inr c"
  shows "c_notes c = trim (case (data ! i) ''notes'' of None \<Rightarrow> [] | Some s \<Rightarrow> s)
    \<and> (500 < length (c_notes c) \<longrightarrow> missingFields data = [] \<longrightarrow> rowErrorsFrom 0 data = [] \<longrightarrow>
         findActiveAgents d \<noteq> [] \<longrightarrow>
           (\<exists>m. fst (uploadAndDistribute now ud data d) = Inl (ValidationError m)
              \<and> (m = ''Notes cannot exceed 500 characters''
                   \<or> m = ''First name cannot exceed 100 characters'')))
    \<and> (length (c_notes c) \<le> 500 \<longrightarrow> length (c_firstName c) \<le> 100 \<longrightarrow> contactOk c)"
proof -
  have trimmed: "c_notes c = trim (case (data ! i) ''notes'' of None \<Rightarrow> [] | Some s \<Rightarrow> s)"
    using validateRow_Inr[OF assms(2)] by auto
  have item: "validateItem (castItem 0 c) =
           (if 100 < length (c_firstName c) then Some ''First name cannot exceed 100 characters''
            else if 500 < length (c_notes c) then Some ''Notes cannot exceed 500 characters''
            else None)"
    by (rule validateItem_validated[OF assms(2)])
  have ok: "contactOk c" if "length (c_notes c) \<le> 500" "length (c_firstName c) \<le> 100"
    using that item by (simp add: contactOk_def)
  have fails: "\<exists>m. fst (uploadAndDistribute now ud data d) = Inl (ValidationError m)
              \<and> (m = ''Notes cannot exceed 500 characters''
                   \<or> m = ''First name cannot exceed 100 characters'')"
    if long: "500 < length (c_notes c)" and pass: "missingFields data = []"
      "rowErrorsFrom 0 data = []" "findActiveAgents d \<noteq> []"
  proof -
    let ?its = "rowContactsFrom 0 data"
    have mem: "c \<in> set ?its"
      using rowContactsFrom_mem[of i data 0 c] assms by simp
    have bad: "\<not> contactOk c"
      using item long by (simp add: contactOk_def)
    obtain m c' where m: "fst (distributeItems now ?its (findActiveAgents d) ud d) =
        Inl (ValidationError m)" and c': "c' \<in> set ?its" "validateItem (castItem 0 c') = Some m"
      using distributeItems_rejects[OF pass(3) mem bad] by blast
    obtain j r where "validateRow j r = Inr c'"
      using rowContactsFrom_validated[OF c'(1)] by blast
    from validateItem_validated[OF this, of 0] c'(2)
    have "m = ''Notes cannot exceed 500 characters''
            \<or> m = ''First name cannot exceed 100 characters''"
      by (auto split: if_splits)
    moreover have "fst (uploadAndDistribute now ud data d) = Inl (ValidationError m)"
    proof -
      obtain d1 where "distributeItems now ?its (findActiveAgents d) ud d =
          (Inl (ValidationError m), d1)"
        using m by (cases "distributeItems now ?its (findActiveAgents d) ud d") simp
      then show ?thesis
        by (simp add: uploadAndDistribute_passes[OF pass])
    qed
    ultimately show ?thesis by blast
  qed
  show ?thesis
    using trimmed fails ok by blast
qed

text \<open>
  A row with notes of 501 characters: the validated record keeps all 501, and the
  upload fails with the message of the notes validator.
\<close>

theorem notes_not_truncated_counterexample:
  "validateRow 0 exLongNotesRow =
     Inr \<lparr> c_firstName = ''Ann'', c_phone = ''555 0100'', c_notes = replicate 501 CHR ''x'' \<rparr>
   \<and> length (replicate 501 CHR ''x'') = 501
   \<and> uploadAndDistribute 5 exUpload [exLongNotesRow] exDb =
       (Inl (ValidationError ''Notes cannot exceed 500 characters''), exDb\<lparr> nextId := 102 \<rparr>)"
  by code_simp

text \<open>
  The long-notes row makes the upload fail; a row with short notes is trimmed and
  accepted.
\<close>

theorem notes_trimmed_and_validated_witness:
  "validateRow 0 ([exLongNotesRow] ! 0) =
     Inr \<lparr> c_firstName = ''Ann'', c_phone = ''555 0100'', c_notes = replicate 501 CHR ''x'' \<rparr>
   \<and> missingFields [exLongNotesRow] = [] \<and> rowErrorsFrom 0 [exLongNotesRow] = []
   \<and> findActiveAgents exDb \<noteq> []
   \<and> (\<exists>m. fst (uploadAndDistribute 5 exUpload [exLongNotesRow] exDb) = Inl (ValidationError m))
   \<and> validateRow 0 ([exRow ''Bob'' ''555 0100'' '' call back ''] ! 0) =
       Inr \<lparr> c_firstName = ''Bob'', c_phone = ''555 0100'', c_notes = ''call back'' \<rparr>
   \<and> contactOk \<lparr> c_firstName = ''Bob'', c_phone = ''555 0100'', c_notes = ''call back'' \<rparr>"
proof -
  let ?long = "\<lparr> c_firstName = ''Ann'', c_phone = ''555 0100'', c_notes = replicate 501 CHR ''x'' \<rparr>"
  let ?good = "\<lparr> c_firstName = ''Bob'', c_phone = ''555 0100'', c_notes = ''call back'' \<rparr>"
  have row: "validateRow 0 ([exLongNotesRow] ! 0) = Inr ?long"
    by code_simp
  have cols: "missingFields [exLongNotesRow] = []"
    by code_simp
  have errs: "rowErrorsFrom 0 [exLongNotesRow] = []"
    by code_simp
  have ags: "findActiveAgents exDb \<noteq> []"
    by code_simp
  have long: "500 < length (c_notes ?long)"
    by simp
  have fails: "\<exists>m. fst (uploadAndDistribute 5 exUpload [exLongNotesRow] exDb) =
      Inl (ValidationError m)"
    using notes_trimmed_and_validated[OF _ row, of exDb 5 exUpload] long cols errs ags
    by fastforce
  have row2: "validateRow 0 ([exRow ''Bob'' ''555 0100'' '' call back ''] ! 0) = Inr ?good"
    by code_simp
  have short: "length (c_notes ?good) \<le> 500" "length (c_firstName ?good) \<le> 100"
    by simp_all
  have one: "0 < length [exRow ''Bob'' ''555 0100'' '' call back '']"
    by simp
  have "contactOk ?good"
    using notes_trimmed_and_validated[OF one row2] short by blast
  with row cols errs ags fails row2 show ?thesis
    by simp
qed

section \<open>Status updates\<close>

lemma updateFirst_Some:
  "updateFirst p f xs = Some ys \<Longrightarrow>
   \<exists>pre x post. xs = pre @ x # post \<and> (\<forall>y\<in>set pre. \<not> p y) \<and> p x \<and> ys = pre @ f x # post"
proof (induction xs arbitrary: ys)
  case Nil
  then show ?case by simp
next
  case (Cons a as)
  show ?case
  proof (cases "p a")
    case True
    with Cons.prems have "ys = f a # as" by simp
    with True have "a # as = [] @ a # as \<and> (\<forall>y\<in>set []. \<not> p y) \<and> p a \<and> ys = [] @ f a # as"
      by simp
    then show ?thesis by blast
  next
    case False
    with Cons.prems obtain zs where zs: "updateFirst p f as = Some zs" and ys: "ys = a # zs"
      by (auto split: option.splits)
    from Cons.IH[OF zs] obtain pre x post where
      "as = pre @ x # post" "\<forall>y\<in>set pre. \<not> p y" "p x" "zs = pre @ f x # post"
      by blast
    with False ys have "a # as = (a # pre) @ x # post \<and> (\<forall>y\<in>set (a # pre). \<not> p y) \<and> p x
        \<and> ys = (a # pre) @ f x # post"
      by simp
    then show ?thesis by blast
  qed
qed

lemma updateFirst_split:
  "(\<forall>y\<in>set pre. \<not> p y) \<Longrightarrow> p x \<Longrightarrow> updateFirst p f (pre @ x # post) = Some (pre @ f x # post)"
  by (induction pre) simp_all

lemma item_id_touchItem [simp]: "item_id (touchItem now st ad item) = item_id item"
  by (simp add: touchItem_def assignItem_def Let_def)

lemma touchItem_same:
  "touchItem t2 st ad (touchItem t1 st ad item) = touchItem t1 st ad item"
  by (simp add: touchItem_def assignItem_def Let_def split: option.splits)

lemma touchItem_stamps:
  assumes "keepsStatus ad"
  shows "status (touchItem now st ad item) = st"
    and "contactedAt (touchItem now st ad item) =
           (if st = ''contacted'' \<and> contactedAt item = None then Some now else contactedAt item)"
    and "completedAt (touchItem now st ad item) =
           (if st = ''completed'' \<and> completedAt item = None then Some now else completedAt item)"
  using assms by (simp_all add: keepsStatus_def touchItem_def assignItem_def Let_def)

lemma touchItem_again:
  assumes "keepsStatus ad1" and "keepsStatus ad2"
  shows "status (touchItem t2 st ad2 (touchItem t1 st ad1 item)) = status (touchItem t1 st ad1 item)"
    and "contactedAt (touchItem t2 st ad2 (touchItem t1 st ad1 item)) =
           contactedAt (touchItem t1 st ad1 item)"
    and "completedAt (touchItem t2 st ad2 (touchItem t1 st ad1 item)) =
           completedAt (touchItem t1 st ad1 item)"
  by (simp_all add: touchItem_stamps[OF assms(1)] touchItem_stamps[OF assms(2)])

lemma count_by_status:
  "map status xs = map status ys \<Longrightarrow>
   length (filter (\<lambda>item. status item = s) xs) = length (filter (\<lambda>item. status item = s) ys)"
proof (induction xs arbitrary: ys)
  case Nil
  then show ?case by simp
next
  case (Cons x xs)
  then obtain y ys' where "ys = y # ys'" "status x = status y" "map status xs = map status ys'"
    by (cases ys) auto
  with Cons.IH[of ys'] show ?case by simp
qed

lemma save_Inr:
  "save now l d = (Inr l', d') \<Longrightarrow>
   validateItems (items l) = None \<and> l' = preSave now l \<and> d' = d\<lparr> lists := upsert l' (lists d) \<rparr>"
  by (auto simp: save_def Let_def split: option.splits)

lemma save_Inl: "save now l d = (Inl e, d') \<Longrightarrow> d' = d \<and> (\<exists>m. e = ValidationError m)"
  by (auto simp: save_def Let_def split: option.splits)

lemma updateItemStatus_Inr:
  assumes "updateItemStatus now l itemId st ad d = (Inr l', d')"
  shows "\<exists>pre x post. items l = pre @ x # post \<and> (\<forall>y\<in>set pre. item_id y \<noteq> itemId)
           \<and> item_id x = itemId \<and> items l' = pre @ touchItem now st ad x # post
           \<and> validateItems (items l') = None
           \<and> l' = preSave now (l\<lparr> items := pre @ touchItem now st ad x # post \<rparr>)"
proof -
  obtain ys where ys: "updateFirst (\<lambda>item. item_id item = itemId) (touchItem now st ad) (items l) = Some ys"
    and sv: "save now (l\<lparr> items := ys \<rparr>) d = (Inr l', d')"
    using assms by (auto simp: updateItemStatus_def split: option.splits)
  from updateFirst_Some[OF ys] obtain pre x post where
    sp: "items l = pre @ x # post" "\<forall>y\<in>set pre. item_id y \<noteq> itemId" "item_id x = itemId"
      "ys = pre @ touchItem now st ad x # post"
    by blast
  from save_Inr[OF sv] have "validateItems ys = None" "l' = preSave now (l\<lparr> items := ys \<rparr>)"
    by simp_all
  with sp show ?thesis
    by (auto simp: preSave_def)
qed

lemma updateItemStatus_found:
  assumes "items l = pre @ x # post" and "\<forall>y\<in>set pre. item_id y \<noteq> itemId" and "item_id x = itemId"
  shows "updateItemStatus now l itemId st ad d =
           save now (l\<lparr> items := pre @ touchItem now st ad x # post \<rparr>) d"
  using assms updateFirst_split[of pre "\<lambda>item. item_id item = itemId" x "touchItem now st ad" post]
  by (simp add: updateItemStatus_def)

lemma counters_preSave:
  "totalItems (preSave now l) = int (length (items l))"
  "completedItems (preSave now l) = int (length (filter (\<lambda>item. status item = ''completed'') (items l)))"
  "pendingItems (preSave now l) = int (length (filter (\<lambda>item. status item = ''pending'') (items l)))"
  "items (preSave now l) = items l"
  by (simp_all add: preSave_def)

text \<open>
  C4. After a status update of an item has succeeded, applying the same status to the
  same item again, at any later time: with the same additional data it succeeds and
  leaves every item, and the three counters, as they were; with additional data that
  set neither status nor dates (as the request handler's, which carry notes only) it
  either is rejected by validation, nothing being written, or leaves the status, the
  \<open>contactedAt\<close> and the \<open>completedAt\<close> of every item and the three counters as they
  were. An update stamps \<open>contactedAt\<close> only when the status is "contacted" and no date
  is set yet, and \<open>completedAt\<close> only when the status is "completed" and no date is set
  yet.
\<close>

theorem updateItemStatus_idempotent:
  assumes "updateItemStatus t1 l itemId st ad1 d = (Inr l1, d1)"
  shows "(\<exists>l2 d2. updateItemStatus t2 l1 itemId st ad1 d1 = (Inr l2, d2)
            \<and> items l2 = items l1 \<and> totalItems l2 = totalItems l1
            \<and> completedItems l2 = completedItems l1 \<and> pendingItems l2 = pendingItems l1)
    \<and> (keepsStatus ad1 \<longrightarrow> keepsStatus ad2 \<longrightarrow>
         (\<forall>r2 d2. updateItemStatus t2 l1 itemId st ad2 d1 = (r2, d2) \<longrightarrow>
            (case r2 of
               Inl e \<Rightarrow> d2 = d1 \<and> e \<noteq> ItemNotFound
             | Inr l2 \<Rightarrow>
                 map contactedAt (items l2) = map contactedAt (items l1)
                 \<and> map completedAt (items l2) = map completedAt (items l1)
                 \<and> map status (items l2) = map status (items l1)
                 \<and> totalItems l2 = totalItems l1
                 \<and> completedItems l2 = completedItems l1
                 \<and> pendingItems l2 = pendingItems l1)))
    \<and> (keepsStatus ad1 \<longrightarrow>
         (\<forall>item. contactedAt (touchItem t1 st ad1 item) =
                   (if st = ''contacted'' \<and> contactedAt item = None then Some t1
                    else contactedAt item)
               \<and> completedAt (touchItem t1 st ad1 item) =
                   (if st = ''completed'' \<and> completedAt item = None then Some t1
                    else completedAt item)))"
proof -
  obtain pre x post where sp: "items l = pre @ x # post" "\<forall>y\<in>set pre. item_id y \<noteq> itemId"
      "item_id x = itemId"
    and it1: "items l1 = pre @ touchItem t1 st ad1 x # post"
    and val1: "validateItems (items l1) = None"
    using updateItemStatus_Inr[OF assms] by blast
  let ?x1 = "touchItem t1 st ad1 x"
  have id1: "item_id ?x1 = itemId"
    using sp(3) by simp
  have tot1: "totalItems l1 = int (length (items l1))"
    and com1: "completedItems l1 =
        int (length (filter (\<lambda>item. status item = ''completed'') (items l1)))"
    and pen1: "pendingItems l1 =
        int (length (filter (\<lambda>item. status item = ''pending'') (items l1)))"
    using updateItemStatus_Inr[OF assms] by (auto simp: counters_preSave)
  have run2: "updateItemStatus t2 l1 itemId st ad d1 =
      save t2 (l1\<lparr> items := pre @ touchItem t2 st ad ?x1 # post \<rparr>) d1" for ad
    by (rule updateItemStatus_found[OF it1 sp(2) id1])
  \<comment> \<open>the same additional data\<close>
  have same: "\<exists>l2 d2. updateItemStatus t2 l1 itemId st ad1 d1 = (Inr l2, d2)
            \<and> items l2 = items l1 \<and> totalItems l2 = totalItems l1
            \<and> completedItems l2 = completedItems l1 \<and> pendingItems l2 = pendingItems l1"
  proof -
    have "l1\<lparr> items := pre @ touchItem t2 st ad1 ?x1 # post \<rparr> = l1"
      by (simp add: touchItem_same it1[symmetric])
    then have "updateItemStatus t2 l1 itemId st ad1 d1 = save t2 l1 d1"
      using run2[of ad1] by simp
    then have "updateItemStatus t2 l1 itemId st ad1 d1 =
        (Inr (preSave t2 l1), d1\<lparr> lists := upsert (preSave t2 l1) (lists d1) \<rparr>)"
      using val1 by (simp add: save_def Let_def)
    then show ?thesis
      by (simp add: counters_preSave tot1 com1 pen1)
  qed
  \<comment> \<open>additional data that leave status and dates alone\<close>
  have other: "case r2 of
               Inl e \<Rightarrow> d2 = d1 \<and> e \<noteq> ItemNotFound
             | Inr l2 \<Rightarrow>
                 map contactedAt (items l2) = map contactedAt (items l1)
                 \<and> map completedAt (items l2) = map completedAt (items l1)
                 \<and> map status (items l2) = map status (items l1)
                 \<and> totalItems l2 = totalItems l1
                 \<and> completedItems l2 = completedItems l1
                 \<and> pendingItems l2 = pendingItems l1"
    if k: "keepsStatus ad1" "keepsStatus ad2"
      and r2: "updateItemStatus t2 l1 itemId st ad2 d1 = (r2, d2)" for r2 d2
  proof (cases r2)
    case (Inl e)
    then have "save t2 (l1\<lparr> items := pre @ touchItem t2 st ad2 ?x1 # post \<rparr>) d1 = (Inl e, d2)"
      using r2 run2[of ad2] by simp
    from save_Inl[OF this] Inl show ?thesis by auto
  next
    case (Inr l2)
    then have "save t2 (l1\<lparr> items := pre @ touchItem t2 st ad2 ?x1 # post \<rparr>) d1 = (Inr l2, d2)"
      using r2 run2[of ad2] by simp
    from save_Inr[OF this]
    have l2: "l2 = preSave t2 (l1\<lparr> items := pre @ touchItem t2 st ad2 ?x1 # post \<rparr>)"
      by simp
    then have it2: "items l2 = pre @ touchItem t2 st ad2 ?x1 # post"
      by (simp add: counters_preSave)
    have st: "map status (items l2) = map status (items l1)"
      and ca: "map contactedAt (items l2) = map contactedAt (items l1)"
      and co: "map completedAt (items l2) = map completedAt (items l1)"
      by (simp_all add: it1 it2 touchItem_again[OF k])
    have "totalItems l2 = totalItems l1"
      using arg_cong[OF st, of length] by (simp add: l2 counters_preSave tot1)
    moreover have "completedItems l2 = completedItems l1"
      using count_by_status[OF st, of "''completed''"]
      by (simp add: l2 counters_preSave com1 it2[unfolded l2 counters_preSave])
    moreover have "pendingItems l2 = pendingItems l1"
      using count_by_status[OF st, of "''pending''"]
      by (simp add: l2 counters_preSave pen1 it2[unfolded l2 counters_preSave])
    ultimately show ?thesis
      using Inr st ca co by simp
  qed
  have stamps: "contactedAt (touchItem t1 st ad1 item) =
                   (if st = ''contacted'' \<and> contactedAt item = None then Some t1
                    else contactedAt item)
               \<and> completedAt (touchItem t1 st ad1 item) =
                   (if st = ''completed'' \<and> completedAt item = None then Some t1
                    else completedAt item)" if "keepsStatus ad1" for item
    using touchItem_stamps[OF that] by simp
  show ?thesis
    using same other stamps by blast
qed

text \<open>
  Item 102 of the example is marked contacted at time 9 and again at time 20: the
  stamp stays 9 and the counters stay.
\<close>

theorem updateItemStatus_idempotent_witness:
  "\<exists>l l1 d1. findListById 100 exDb1 = Some l
     \<and> updateItemStatus 9 l 102 ''contacted'' noAdditionalData exDb1 = (Inr l1, d1)
     \<and> keepsStatus noAdditionalData
     \<and> map contactedAt (items l1) = [None, Some 9, None] \<and> pendingItems l1 = 2
     \<and> (\<exists>l2 d2. updateItemStatus 20 l1 102 ''contacted'' noAdditionalData d1 = (Inr l2, d2)
            \<and> map contactedAt (items l2) = [None, Some 9, None]
            \<and> totalItems l2 = totalItems l1 \<and> completedItems l2 = completedItems l1
            \<and> pendingItems l2 = 2)"
proof -
  have "case findListById 100 exDb1 of
          None \<Rightarrow> False
        | Some l \<Rightarrow>
            (case updateItemStatus 9 l 102 ''contacted'' noAdditionalData exDb1 of
               (Inr l1, _) \<Rightarrow> map contactedAt (items l1) = [None, Some 9, None] \<and> pendingItems l1 = 2
             | (Inl _, _) \<Rightarrow> False)"
    by code_simp
  then obtain l l1 d1 where l: "findListById 100 exDb1 = Some l"
    and run1: "updateItemStatus 9 l 102 ''contacted'' noAdditionalData exDb1 = (Inr l1, d1)"
    and v1: "map contactedAt (items l1) = [None, Some 9, None]" "pendingItems l1 = 2"
    by (auto split: option.splits prod.splits sum.splits)
  have k: "keepsStatus noAdditionalData"
    by (simp add: keepsStatus_def noAdditionalData_def)
  obtain l2 d2 where run2: "updateItemStatus 20 l1 102 ''contacted'' noAdditionalData d1 = (Inr l2, d2)"
    and same: "items l2 = items l1" "totalItems l2 = totalItems l1"
      "completedItems l2 = completedItems l1" "pendingItems l2 = pendingItems l1"
    using updateItemStatus_idempotent[OF run1, of 20] by blast
  from l run1 k v1 run2 same show ?thesis
    by simp
qed

section \<open>Sub-Lists and agent counters of a distribution\<close>

lemma upsert_fresh: "\<forall>x\<in>set xs. list_id x \<noteq> list_id l \<Longrightarrow> upsert l xs = xs @ [l]"
  by (induction xs) simp_all

lemma list_id_persisted [simp]: "list_id (persisted now ud a g d) = nextId d"
  by (simp add: persisted_def preSave_def newList_def)

lemma nextId_afterPersist [simp]:
  "nextId (afterPersist now ud a g d) = nextId d + 1 + length g"
  by (simp add: afterPersist_def incrementAssignedCount_def saveAgent_def)

lemma loopAt_lists:
  "(\<forall>l\<in>set (lists d). list_id l < nextId d) \<longrightarrow>
   (\<forall>out d'. loopAt now its ags ud i ds d = (Inr out, d') \<longrightarrow>
      (\<exists>new. out = ds @ new \<and> lists d' = lists d @ new))"
proof (induction i ds d rule: loopAt_induct[where now = now and its = its and ags = ags and ud = ud])
  case (finished i ds d)
  show ?case by simp
next
  case (skipped i ds d)
  then show ?case by simp
next
  case (rejected i ds d m)
  show ?case by simp
next
  case (stored i ds d)
  let ?p = "persisted now ud (ags ! i) (spec_group its (length ags) i) d"
  let ?d = "afterPersist now ud (ags ! i) (spec_group its (length ags) i) d"
  show ?case
  proof (intro impI allI)
    fix out d'
    assume fresh: "\<forall>l\<in>set (lists d). list_id l < nextId d"
      and run: "loopAt now its ags ud (Suc i) (ds @ [?p]) ?d = (Inr out, d')"
    have "\<forall>x\<in>set (lists d). list_id x \<noteq> list_id ?p"
      using fresh by auto
    then have l2: "lists ?d = lists d @ [?p]"
      by (simp only: lists_afterPersist upsert_fresh)
    have "\<forall>l\<in>set (lists ?d). list_id l < nextId ?d"
      using fresh by (auto simp: l2)
    with stored(4) run obtain new where "out = (ds @ [?p]) @ new" "lists d' = lists ?d @ new"
      by blast
    then have "out = ds @ (?p # new) \<and> lists d' = lists d @ (?p # new)"
      by (simp add: l2)
    then show "\<exists>new. out = ds @ new \<and> lists d' = lists d @ new"
      by blast
  qed
qed

subsection \<open>The counters of the agents\<close>

lemma find_map_same:
  "(\<And>x. P (g x) = P x) \<Longrightarrow> find P (map g xs) = map_option g (find P xs)"
  by (induction xs) simp_all

lemma findAgentById_agents: "agents d1 = agents d2 \<Longrightarrow> findAgentById aid d1 = findAgentById aid d2"
  by (simp add: findAgentById_def)

lemma agents_saveAgent:
  "agents (saveAgent a d) =
     map (\<lambda>x. if agent_id x = agent_id a
              then x\<lparr> assignedListsCount := assignedListsCount a,
                     totalItemsAssigned := totalItemsAssigned a \<rparr>
              else x) (agents d)"
  by (simp add: saveAgent_def)

lemma find_id_Some: "find (\<lambda>x. agent_id x = aid) xs = Some x \<Longrightarrow> agent_id x = aid"
  by (induction xs) (auto split: if_splits)

lemma findAgentById_saveAgent:
  "findAgentById aid (saveAgent a d) =
     (if aid = agent_id a
      then map_option (\<lambda>x. x\<lparr> assignedListsCount := assignedListsCount a,
                               totalItemsAssigned := totalItemsAssigned a \<rparr>) (findAgentById aid d)
      else findAgentById aid d)"
proof -
  let ?g = "\<lambda>x. if agent_id x = agent_id a
                 then x\<lparr> assignedListsCount := assignedListsCount a,
                        totalItemsAssigned := totalItemsAssigned a \<rparr>
                 else x"
  let ?f = "find (\<lambda>x. agent_id x = aid) (agents d)"
  have "find (\<lambda>x. agent_id x = aid) (map ?g (agents d)) = map_option ?g ?f"
    by (rule find_map_same) simp
  then have m: "findAgentById aid (saveAgent a d) = map_option ?g ?f"
    by (simp only: findAgentById_def agents_saveAgent)
  have "map_option ?g ?f =
     (if aid = agent_id a
      then map_option (\<lambda>x. x\<lparr> assignedListsCount := assignedListsCount a,
                               totalItemsAssigned := totalItemsAssigned a \<rparr>) ?f
      else ?f)"
  proof (cases ?f)
    case None
    then show ?thesis by auto
  next
    case (Some x)
    then have "agent_id x = aid"
      by (rule find_id_Some)
    then show ?thesis
      using Some by auto
  qed
  with m show ?thesis
    by (simp only: findAgentById_def)
qed

lemma agents_afterPersist:
  "agents (afterPersist now ud a g d) =
     agents (saveAgent (a\<lparr> assignedListsCount := assignedListsCount a + 1,
                            totalItemsAssigned := totalItemsAssigned a + int (length g) \<rparr>) d)"
  by (simp add: afterPersist_def incrementAssignedCount_def saveAgent_def)

lemma findAgentById_afterPersist:
  "findAgentById aid (afterPersist now ud a g d) =
     (if aid = agent_id a
      then map_option (\<lambda>x. x\<lparr> assignedListsCount := assignedListsCount a + 1,
                               totalItemsAssigned := totalItemsAssigned a + int (length g) \<rparr>)
             (findAgentById aid d)
      else findAgentById aid d)"
  by (simp add: findAgentById_agents[OF agents_afterPersist] findAgentById_saveAgent)

lemma loopAt_agents:
  "distinct (map agent_id ags) \<and>
   (\<forall>j<length ags. findAgentById (agent_id (ags ! j)) d =
        Some (if j < i then credited (ags ! j) (length (spec_group its (length ags) j))
              else ags ! j)) \<longrightarrow>
   (\<forall>out d'. loopAt now its ags ud i ds d = (Inr out, d') \<longrightarrow>
      (\<forall>j<length ags. findAgentById (agent_id (ags ! j)) d' =
          Some (credited (ags ! j) (length (spec_group its (length ags) j)))))"
proof (induction i ds d rule: loopAt_induct[where now = now and its = its and ags = ags and ud = ud])
  case (finished i ds d)
  show ?case
  proof (intro impI allI)
    fix out d' j
    assume pre: "distinct (map agent_id ags) \<and>
      (\<forall>j<length ags. findAgentById (agent_id (ags ! j)) d =
        Some (if j < i then credited (ags ! j) (length (spec_group its (length ags) j))
              else ags ! j))"
      and eq: "(Inr ds, d) = (Inr out, d')" and j: "j < length ags"
    from finished j have "j < i" by simp
    with pre j eq show "findAgentById (agent_id (ags ! j)) d' =
        Some (credited (ags ! j) (length (spec_group its (length ags) j)))"
      by simp
  qed
next
  case (skipped i ds d)
  have "(if j < Suc i then credited (ags ! j) (length (spec_group its (length ags) j)) else ags ! j)
      = (if j < i then credited (ags ! j) (length (spec_group its (length ags) j)) else ags ! j)"
    for j
  proof (cases "j = i")
    case True
    then show ?thesis
      using skipped(2) by (simp add: credited_def)
  next
    case False
    then show ?thesis
      by (simp add: less_Suc_eq)
  qed
  with skipped(3) show ?case by (simp only:)
next
  case (rejected i ds d m)
  show ?case by simp
next
  case (stored i ds d)
  let ?g = "spec_group its (length ags) i"
  let ?d = "afterPersist now ud (ags ! i) ?g d"
  show ?case
  proof (intro impI)
    assume pre: "distinct (map agent_id ags) \<and>
      (\<forall>j<length ags. findAgentById (agent_id (ags ! j)) d =
        Some (if j < i then credited (ags ! j) (length (spec_group its (length ags) j))
              else ags ! j))"
    then have dist: "distinct (map agent_id ags)"
      and inv: "\<And>j. j < length ags \<Longrightarrow> findAgentById (agent_id (ags ! j)) d =
        Some (if j < i then credited (ags ! j) (length (spec_group its (length ags) j))
              else ags ! j)"
      by simp_all
    have "findAgentById (agent_id (ags ! j)) ?d =
        Some (if j < Suc i then credited (ags ! j) (length (spec_group its (length ags) j))
              else ags ! j)" if j: "j < length ags" for j
    proof (cases "j = i")
      case True
      then show ?thesis
        using inv[OF stored(1)] stored(2)
        by (simp add: findAgentById_afterPersist credited_def)
    next
      case False
      then have "agent_id (ags ! j) \<noteq> agent_id (ags ! i)"
        using dist j stored(1) by (simp add: distinct_conv_nth)
      then show ?thesis
        using inv[OF j] False by (simp add: findAgentById_afterPersist)
    qed
    then have "\<forall>j<length ags. findAgentById (agent_id (ags ! j)) ?d =
        Some (if j < Suc i then credited (ags ! j) (length (spec_group its (length ags) j))
              else ags ! j)"
      by blast
    with dist stored(4) show "\<forall>out d'.
       loopAt now its ags ud (Suc i) (ds @ [persisted now ud (ags ! i) ?g d]) ?d = (Inr out, d') \<longrightarrow>
       (\<forall>j<length ags. findAgentById (agent_id (ags ! j)) d' =
          Some (credited (ags ! j) (length (spec_group its (length ags) j))))"
      by blast
  qed
qed

lemma loopAt_other_agents:
  "aid \<notin> agent_id ` set ags \<longrightarrow>
   findAgentById aid (snd (loopAt now its ags ud i ds d)) = findAgentById aid d"
proof (induction i ds d rule: loopAt_induct[where now = now and its = its and ags = ags and ud = ud])
  case (finished i ds d)
  show ?case by simp
next
  case (skipped i ds d)
  then show ?case by simp
next
  case (rejected i ds d m)
  show ?case by (simp add: findAgentById_def)
next
  case (stored i ds d)
  have "aid \<noteq> agent_id (ags ! i)" if "aid \<notin> agent_id ` set ags"
    using that stored(1) by auto
  with stored(4) show ?case
    by (simp add: findAgentById_afterPersist)
qed

lemma spec_share_zero:
  assumes "i < M"
  shows "spec_share N M i = 0 \<longleftrightarrow> N < M \<and> N \<le> i"
proof (cases "N < M")
  case True
  then show ?thesis
    by (auto simp: spec_share_def)
next
  case False
  then have "0 < N div M"
    using assms by (simp add: div_greater_zero_iff)
  with False show ?thesis
    by (simp add: spec_share_def)
qed

lemma filter_groups_sizes:
  "map (\<lambda>ag. (fst ag, length (snd ag)))
     (filter (\<lambda>ag. snd ag \<noteq> []) (map (\<lambda>j. (f j, map h (g j))) js)) =
   map (\<lambda>j. (f j, length (g j))) (filter (\<lambda>j. 0 < length (g j)) js)"
  by (induction js) simp_all

lemma find_distinct_id:
  "distinct (map agent_id xs) \<Longrightarrow> a \<in> set xs \<Longrightarrow> find (\<lambda>x. agent_id x = agent_id a) xs = Some a"
  by (induction xs) (auto simp: image_iff)

lemma findActiveAgents_stored:
  assumes "distinct (map agent_id (agents d))"
  shows "distinct (map agent_id (findActiveAgents d))"
    and "\<forall>j<length (findActiveAgents d).
           findAgentById (agent_id (findActiveAgents d ! j)) d = Some (findActiveAgents d ! j)"
proof -
  have "distinct (map agent_id (filter isActive (agents d)))"
    using assms by (rule distinct_map_filter)
  then show "distinct (map agent_id (findActiveAgents d))"
    unfolding findActiveAgents_def by (simp add: distinct_map)
  have "set (findActiveAgents d) \<subseteq> set (agents d)"
    by (auto simp: findActiveAgents_def)
  then have "findActiveAgents d ! j \<in> set (agents d)" if "j < length (findActiveAgents d)" for j
    using that nth_mem by blast
  then show "\<forall>j<length (findActiveAgents d).
           findAgentById (agent_id (findActiveAgents d ! j)) d = Some (findActiveAgents d ! j)"
    using find_distinct_id[OF assms] by (simp add: findAgentById_def)
qed

text \<open>
  C7. Let \<open>distributeItems\<close> succeed on \<open>N\<close> contacts and \<open>M \<ge> 1\<close> agents that are
  the stored agents with pairwise different ids, in a database whose list ids are below
  the id counter. Then the collection grows by exactly the returned Sub-Lists; these
  are, in agent order, one per position whose share is not 0, owned by that agent and
  holding as many items as the share, and none of them is empty. The stored agent of
  position \<open>j\<close> has \<open>assignedListsCount\<close> raised by 1 and \<open>totalItemsAssigned\<close> raised by
  the share when the share is not 0, and is unchanged when it is 0; the other agents are
  unchanged. The share of position \<open>j\<close> is 0 exactly when \<open>N < M\<close> and \<open>j \<ge> N\<close>.
\<close>

theorem sublists_and_agent_counters:
  assumes "ags \<noteq> []" and "distinct (map agent_id ags)"
    and "\<forall>j<length ags. findAgentById (agent_id (ags ! j)) d = Some (ags ! j)"
    and "\<forall>l\<in>set (lists d). list_id l < nextId d"
    and "distributeItems now its ags ud d = (Inr out, d')"
  shows "lists d' = lists d @ out
    \<and> map (\<lambda>l. (agentId l, length (items l))) out =
        map (\<lambda>j. (agent_id (ags ! j), spec_share (length its) (length ags) j))
          (filter (\<lambda>j. 0 < spec_share (length its) (length ags) j) [0..<length ags])
    \<and> (\<forall>l\<in>set out. items l \<noteq> [])
    \<and> (\<forall>j<length ags. findAgentById (agent_id (ags ! j)) d' =
          Some (credited (ags ! j) (spec_share (length its) (length ags) j)))
    \<and> (\<forall>aid. aid \<notin> agent_id ` set ags \<longrightarrow> findAgentById aid d' = findAgentById aid d)
    \<and> (\<forall>j<length ags. spec_share (length its) (length ags) j = 0 \<longleftrightarrow>
          length its < length ags \<and> length its \<le> j)"
proof -
  let ?M = "length ags"
  let ?N = "length its"
  have run: "loopAt now its ags ud 0 [] d = (Inr out, d')"
    using assms(5) by (simp add: distributeItems_loopAt)
  have len: "length (spec_group its ?M j) = spec_share ?N ?M j" if "j < ?M" for j
    using that by (rule length_spec_group)
  \<comment> \<open>the stored Sub-Lists\<close>
  have stored: "lists d' = lists d @ out"
    using loopAt_lists[of d now its ags ud 0 "[]"] assms(4) run by auto
  \<comment> \<open>their owners and sizes\<close>
  have "map listView out =
       filter (\<lambda>ag. snd ag \<noteq> [])
         (map (\<lambda>j. (agent_id (ags ! j), map trimContact (spec_group its ?M j))) [0..<?M])"
    using loopAt_view[of now its ags ud 0 "[]" d] run by simp
  then have "map (\<lambda>ag. (fst ag, length (snd ag))) (map listView out) =
       map (\<lambda>j. (agent_id (ags ! j), length (spec_group its ?M j)))
         (filter (\<lambda>j. 0 < length (spec_group its ?M j)) [0..<?M])"
    by (simp only: filter_groups_sizes)
  also have "\<dots> = map (\<lambda>j. (agent_id (ags ! j), spec_share ?N ?M j))
         (filter (\<lambda>j. 0 < spec_share ?N ?M j) [0..<?M])"
  proof -
    have "filter (\<lambda>j. 0 < length (spec_group its ?M j)) [0..<?M] =
        filter (\<lambda>j. 0 < spec_share ?N ?M j) [0..<?M]"
      by (rule filter_cong) (simp_all add: len)
    moreover have "map (\<lambda>j. (agent_id (ags ! j), length (spec_group its ?M j))) js =
        map (\<lambda>j. (agent_id (ags ! j), spec_share ?N ?M j)) js"
      if "\<forall>j\<in>set js. j < ?M" for js
      using that by (induction js) (simp_all add: len)
    moreover have "\<forall>j\<in>set (filter (\<lambda>j. 0 < spec_share ?N ?M j) [0..<?M]). j < ?M"
      by simp
    ultimately show ?thesis
      by (simp only:)
  qed
  finally have sizes: "map (\<lambda>l. (agentId l, length (items l))) out =
        map (\<lambda>j. (agent_id (ags ! j), spec_share ?N ?M j))
          (filter (\<lambda>j. 0 < spec_share ?N ?M j) [0..<?M])"
    by (simp add: listView_def comp_def)
  have nonempty: "\<forall>l\<in>set out. items l \<noteq> []"
  proof
    fix l assume "l \<in> set out"
    then have "(agentId l, length (items l)) \<in> set (map (\<lambda>l. (agentId l, length (items l))) out)"
      by (simp add: image_iff) blast
    then have "0 < length (items l)"
      unfolding sizes by auto
    then show "items l \<noteq> []" by simp
  qed
  \<comment> \<open>the agents\<close>
  have "\<forall>j<?M. findAgentById (agent_id (ags ! j)) d' =
          Some (credited (ags ! j) (length (spec_group its ?M j)))"
    using loopAt_agents[of ags d 0 its now ud "[]"] assms(2,3) run by simp
  then have agents: "\<forall>j<?M. findAgentById (agent_id (ags ! j)) d' =
          Some (credited (ags ! j) (spec_share ?N ?M j))"
    by (simp add: len)
  have others: "\<forall>aid. aid \<notin> agent_id ` set ags \<longrightarrow> findAgentById aid d' = findAgentById aid d"
    using loopAt_other_agents[of _ ags now its ud 0 "[]" d] run by simp
  have zero: "\<forall>j<?M. spec_share ?N ?M j = 0 \<longleftrightarrow> ?N < ?M \<and> ?N \<le> j"
    by (simp add: spec_share_zero)
  show ?thesis
    by (intro conjI stored sizes nonempty agents others zero)
qed

text \<open>
  Two more contacts in the example database with its three agents: Sub-Lists for agents
  1 and 2 only, and the counters of agent 3 stay.
\<close>

theorem sublists_and_agent_counters_witness:
  "findActiveAgents exDb1 \<noteq> [] \<and> distinct (map agent_id (findActiveAgents exDb1))
   \<and> list_all (\<lambda>a. findAgentById (agent_id a) exDb1 = Some a) (findActiveAgents exDb1)
   \<and> list_all (\<lambda>l. list_id l < nextId exDb1) (lists exDb1)
   \<and> map (\<lambda>a. (agent_id a, assignedListsCount a, totalItemsAssigned a)) (agents exDb1) =
         [(1, 1, 3), (2, 1, 2), (3, 1, 2)]
   \<and> (\<exists>out d'. distributeItems 7 (take 2 exContacts7) (findActiveAgents exDb1) exUpload exDb1 =
                   (Inr out, d')
         \<and> lists d' = lists exDb1 @ out
         \<and> map (\<lambda>l. (agentId l, length (items l))) out = [(1, 1), (2, 1)]
         \<and> map (\<lambda>a. (agent_id a, assignedListsCount a, totalItemsAssigned a)) (agents d') =
              [(1, 2, 4), (2, 2, 3), (3, 1, 2)])"
proof -
  let ?ags = "findActiveAgents exDb1"
  have ne: "?ags \<noteq> []"
    by code_simp
  have dist: "distinct (map agent_id ?ags)"
    by code_simp
  have st: "list_all (\<lambda>a. findAgentById (agent_id a) exDb1 = Some a) ?ags"
    by code_simp
  have fresh: "list_all (\<lambda>l. list_id l < nextId exDb1) (lists exDb1)"
    by code_simp
  have before: "map (\<lambda>a. (agent_id a, assignedListsCount a, totalItemsAssigned a)) (agents exDb1) =
         [(1, 1, 3), (2, 1, 2), (3, 1, 2)]"
    by code_simp
  have "case distributeItems 7 (take 2 exContacts7) ?ags exUpload exDb1 of
          (Inr out, d') \<Rightarrow>
            map (\<lambda>l. (agentId l, length (items l))) out = [(1, 1), (2, 1)]
            \<and> map (\<lambda>a. (agent_id a, assignedListsCount a, totalItemsAssigned a)) (agents d') =
                 [(1, 2, 4), (2, 2, 3), (3, 1, 2)]
        | (Inl _, _) \<Rightarrow> False"
    by code_simp
  then obtain out d' where
    run: "distributeItems 7 (take 2 exContacts7) ?ags exUpload exDb1 = (Inr out, d')"
    and vals: "map (\<lambda>l. (agentId l, length (items l))) out = [(1, 1), (2, 1)]"
      "map (\<lambda>a. (agent_id a, assignedListsCount a, totalItemsAssigned a)) (agents d') =
         [(1, 2, 4), (2, 2, 3), (3, 1, 2)]"
    by (auto split: prod.splits sum.splits)
  have st': "\<forall>j<length ?ags. findAgentById (agent_id (?ags ! j)) exDb1 = Some (?ags ! j)"
    using st by (simp add: list_all_length)
  have fresh': "\<forall>l\<in>set (lists exDb1). list_id l < nextId exDb1"
    using fresh by (simp add: list_all_iff)
  have "lists d' = lists exDb1 @ out"
    using sublists_and_agent_counters[OF ne dist st' fresh' run] by blast
  with ne dist st fresh before run vals show ?thesis
    by simp
qed

section \<open>Aggregated reports\<close>













section \<open>Deleting a Sub-List\<close>

lemma length_deleteById:
  "find (\<lambda>l. list_id l = listId) xs = Some l \<Longrightarrow> Suc (length (deleteById listId xs)) = length xs"
  by (induction xs) (auto split: if_splits)

text \<open>
  C9. Deleting a stored Sub-List whose \<open>totalItems\<close> is the number \<open>k\<close> of its items,
  owned by a stored agent: the deletion succeeds and removes one Sub-List; the agent's
  \<open>assignedListsCount\<close> becomes \<open>max 0 (c - 1)\<close> and its \<open>totalItemsAssigned\<close> becomes
  \<open>max 0 (t - k)\<close>, so both are at least 0 whatever they were, and they are \<open>c - 1\<close>
  and \<open>t - k\<close> when the old values are at least 1 and at least \<open>k\<close>. Nothing else of
  the agent changes, and no other agent changes.
\<close>

theorem deleteList_decrements_with_floor:
  assumes "findListById listId d = Some l" and "findAgentById (agentId l) d = Some a"
    and "totalItems l = int (length (items l))"
  shows "\<exists>d' a'. deleteList listId d = (Inr (), d')
      \<and> lists d' = deleteById listId (lists d) \<and> Suc (length (lists d')) = length (lists d)
      \<and> findAgentById (agentId l) d' = Some a'
      \<and> a' = a\<lparr> assignedListsCount := assignedListsCount a', totalItemsAssigned := totalItemsAssigned a' \<rparr>
      \<and> (\<forall>aid. aid \<noteq> agentId l \<longrightarrow> findAgentById aid d' = findAgentById aid d)
      \<and> assignedListsCount a' = max 0 (assignedListsCount a - 1)
      \<and> totalItemsAssigned a' = max 0 (totalItemsAssigned a - int (length (items l)))
      \<and> 0 \<le> assignedListsCount a' \<and> 0 \<le> totalItemsAssigned a'
      \<and> (1 \<le> assignedListsCount a \<longrightarrow> assignedListsCount a' = assignedListsCount a - 1)
      \<and> (int (length (items l)) \<le> totalItemsAssigned a \<longrightarrow>
            totalItemsAssigned a' = totalItemsAssigned a - int (length (items l)))"
proof -
  let ?a = "a\<lparr> assignedListsCount := max 0 (assignedListsCount a - 1),
               totalItemsAssigned := max 0 (totalItemsAssigned a - totalItems l) \<rparr>"
  let ?d1 = "saveAgent ?a d"
  let ?d' = "?d1\<lparr> lists := deleteById listId (lists ?d1) \<rparr>"
  have run: "deleteList listId d = (Inr (), ?d')"
    using assms(1,2) by (simp add: deleteList_def Let_def)
  have k: "totalItems l = int (length (items l))"
    by (rule assms(3))
  have id: "agent_id a = agentId l"
    using assms(2) unfolding findAgentById_def by (rule find_id_Some)
  have "findAgentById (agentId l) ?d' = findAgentById (agentId l) ?d1"
    by (rule findAgentById_agents) simp
  also have "\<dots> = Some ?a"
    using assms(2) id by (simp add: findAgentById_saveAgent)
  finally have ag: "findAgentById (agentId l) ?d' = Some ?a" .
  have others: "findAgentById aid ?d' = findAgentById aid d" if "aid \<noteq> agentId l" for aid
  proof -
    have "findAgentById aid ?d' = findAgentById aid ?d1"
      by (rule findAgentById_agents) simp
    then show ?thesis
      using that id by (simp add: findAgentById_saveAgent)
  qed
  have ls: "lists ?d' = deleteById listId (lists d)"
    by (simp add: saveAgent_def)
  have len: "Suc (length (lists ?d')) = length (lists d)"
    unfolding ls using assms(1) by (simp add: findListById_def length_deleteById)
  show ?thesis
    using run ag ls len others by (simp add: k)
qed

text \<open>
  Deleting Sub-List 100 (3 items) of the example takes agent 1 from 1 list and 3 items
  to 0 and 0; with the agent's counters already 0 they stay 0.
\<close>

theorem deleteList_decrements_with_floor_witness:
  "(\<exists>l a. findListById 100 exDb1 = Some l \<and> findAgentById (agentId l) exDb1 = Some a
        \<and> totalItems l = int (length (items l)) \<and> length (items l) = 3
        \<and> assignedListsCount a = 1 \<and> totalItemsAssigned a = 3)
   \<and> (\<exists>d' a'. deleteList 100 exDb1 = (Inr (), d') \<and> findAgentById 1 d' = Some a'
        \<and> assignedListsCount a' = 0 \<and> totalItemsAssigned a' = 0
        \<and> map list_id (lists d') = [104, 107])
   \<and> (\<exists>d' a'. deleteList 100 (exDb1\<lparr> agents := exAgents3 \<rparr>) = (Inr (), d')
        \<and> findAgentById 1 d' = Some a'
        \<and> assignedListsCount a' = 0 \<and> totalItemsAssigned a' = 0)"
proof -
  have "case findListById 100 exDb1 of
          None \<Rightarrow> False
        | Some l \<Rightarrow> agentId l = 1 \<and> totalItems l = int (length (items l))
            \<and> length (items l) = 3
            \<and> (case findAgentById (agentId l) exDb1 of
                  None \<Rightarrow> False
                | Some a \<Rightarrow> assignedListsCount a = 1 \<and> totalItemsAssigned a = 3)"
    by code_simp
  then obtain l a where l: "findListById 100 exDb1 = Some l" and al: "agentId l = 1"
    and a: "findAgentById (agentId l) exDb1 = Some a"
    and ok: "totalItems l = int (length (items l))"
    and vals: "length (items l) = 3" "assignedListsCount a = 1" "totalItemsAssigned a = 3"
    by (auto split: option.splits)
  obtain d' a' where run: "deleteList 100 exDb1 = (Inr (), d')"
    and r: "findAgentById (agentId l) d' = Some a'"
      "assignedListsCount a' = max 0 (assignedListsCount a - 1)"
      "totalItemsAssigned a' = max 0 (totalItemsAssigned a - int (length (items l)))"
      "lists d' = deleteById 100 (lists exDb1)"
    using deleteList_decrements_with_floor[OF l a ok] by blast
  have ids: "map list_id (deleteById 100 (lists exDb1)) = [104, 107]"
    by code_simp
  have first: "\<exists>d' a'. deleteList 100 exDb1 = (Inr (), d') \<and> findAgentById 1 d' = Some a'
        \<and> assignedListsCount a' = 0 \<and> totalItemsAssigned a' = 0
        \<and> map list_id (lists d') = [104, 107]"
    using run r ids by (simp add: al vals)
  let ?d = "exDb1\<lparr> agents := exAgents3 \<rparr>"
  have l2: "findListById 100 ?d = Some l"
    using l by (simp add: findListById_def)
  have "case findAgentById 1 ?d of
          None \<Rightarrow> False | Some b \<Rightarrow> assignedListsCount b = 0 \<and> totalItemsAssigned b = 0"
    by code_simp
  then obtain b where b: "findAgentById (agentId l) ?d = Some b"
    and bv: "assignedListsCount b = 0" "totalItemsAssigned b = 0"
    by (auto simp: al split: option.splits)
  obtain e' b' where "deleteList 100 ?d = (Inr (), e')"
    "findAgentById (agentId l) e' = Some b'"
    "assignedListsCount b' = max 0 (assignedListsCount b - 1)"
    "totalItemsAssigned b' = max 0 (totalItemsAssigned b - int (length (items l)))"
    using deleteList_decrements_with_floor[OF l2 b ok] by blast
  then have second: "\<exists>d' a'. deleteList 100 ?d = (Inr (), d') \<and> findAgentById 1 d' = Some a'
        \<and> assignedListsCount a' = 0 \<and> totalItemsAssigned a' = 0"
    by (simp add: al bv vals)
  from l a ok vals first second show ?thesis
    by simp
qed

section \<open>The figure \<open>inProgressItems\<close>\<close>


end
